theory Spec2Isabelle
  imports Main "HOL-Library.Sublist"
begin

section \<open>JavaScript strings and values\<close>

text \<open>
  Strings are lists of characters. The whitespace set is the one shared by
  \<^verbatim>\<open>String.prototype.trim\<close> and the regular-expression class \<^verbatim>\<open>\s\<close>,
  restricted to the code units a \<^typ>\<open>char\<close> can hold: tab, line feed, vertical tab,
  form feed, carriage return, space and the no-break space.
\<close>

definition js_space :: "char \<Rightarrow> bool" where
  "js_space ch = (ch \<in> {CHR 0x09, CHR 0x0A, CHR 0x0B, CHR 0x0C, CHR 0x0D, CHR 0x20, CHR 0xA0})"

definition trim :: "string \<Rightarrow> string" where
  "trim s = rev (dropWhile js_space (rev (dropWhile js_space s)))"

text \<open>\<^verbatim>\<open>s.includes(sub)\<close>: does \<open>sub\<close> occur in \<open>s\<close> as a contiguous block.\<close>

fun js_includes :: "string \<Rightarrow> string \<Rightarrow> bool" where
  "js_includes [] sub = (sub = [])"
| "js_includes (x # xs) sub = (take (length sub) (x # xs) = sub \<or> js_includes xs sub)"

text \<open>\<^verbatim>\<open>parts.join(sep)\<close>.\<close>

fun js_join :: "string \<Rightarrow> string list \<Rightarrow> string" where
  "js_join sep [] = []"
| "js_join sep [x] = x"
| "js_join sep (x # y # ys) = x @ sep @ js_join sep (y # ys)"

text \<open>
  \<^verbatim>\<open>s.split('/')\<close> for a one-character separator: the result is never empty, and an
  empty piece is kept wherever two separators meet or the string starts or ends with one.
\<close>

fun split_at :: "char \<Rightarrow> string \<Rightarrow> string \<Rightarrow> string list" where
  "split_at sep cur [] = [rev cur]"
| "split_at sep cur (x # xs) =
     (if x = sep then rev cur # split_at sep [] xs else split_at sep (x # cur) xs)"

definition js_split :: "char \<Rightarrow> string \<Rightarrow> string list" where
  "js_split sep s = split_at sep [] s"

text \<open>
  The values a \<^verbatim>\<open>Record<string, unknown>\<close> payload can hold. Numbers are the
  integral ones of magnitude below \<^verbatim>\<open>1e21\<close>, which JavaScript prints as a plain decimal
  numeral; numbers with a fraction, and larger ones, which it prints with an exponent,
  are not represented. An object is the list of its own enumerable properties in the
  order \<^verbatim>\<open>Object.entries\<close> reports them.
\<close>

datatype jsval =
    JUndefined
  | JNull
  | JBool bool
  | JNum int
  | JStr string
  | JArr "jsval list"
  | JObj "(string \<times> jsval) list"

fun show_nat :: "nat \<Rightarrow> string" where
  "show_nat n =
     (if n < 10 then [''0123456789'' ! n]
      else show_nat (n div 10) @ [''0123456789'' ! (n mod 10)])"

declare show_nat.simps [simp del]

definition show_int :: "int \<Rightarrow> string" where
  "show_int i = (if i < 0 then CHR ''-'' # show_nat (nat (- i)) else show_nat (nat i))"

text \<open>\<^verbatim>\<open>ToString\<close>, as a template literal \<^verbatim>\<open>${value}\<close> applies it.\<close>

fun to_string :: "jsval \<Rightarrow> string" where
  "to_string JUndefined = ''undefined''"
| "to_string JNull = ''null''"
| "to_string (JBool b) = (if b then ''true'' else ''false'')"
| "to_string (JNum i) = show_int i"
| "to_string (JStr s) = s"
| "to_string (JArr vs) =
     js_join '','' (map (\<lambda>v. case v of JUndefined \<Rightarrow> [] | JNull \<Rightarrow> [] | _ \<Rightarrow> to_string v) vs)"
| "to_string (JObj kvs) = ''[object Object]''"

text \<open>\<^verbatim>\<open>ToBoolean\<close>: what \<^verbatim>\<open>||\<close> and \<^verbatim>\<open>if\<close> test.\<close>

fun truthy :: "jsval \<Rightarrow> bool" where
  "truthy JUndefined = False"
| "truthy JNull = False"
| "truthy (JBool b) = b"
| "truthy (JNum i) = (i \<noteq> 0)"
| "truthy (JStr s) = (s \<noteq> [])"
| "truthy (JArr vs) = True"
| "truthy (JObj kvs) = True"

definition js_or :: "jsval \<Rightarrow> jsval \<Rightarrow> jsval" where
  "js_or a b = (if truthy a then a else b)"

text \<open>Property read \<^verbatim>\<open>obj.key\<close> on a plain object: \<^verbatim>\<open>undefined\<close> when absent.\<close>

definition get_prop :: "(string \<times> jsval) list \<Rightarrow> string \<Rightarrow> jsval" where
  "get_prop obj k = (case map_of obj k of Some v \<Rightarrow> v | None \<Rightarrow> JUndefined)"

text \<open>\<^verbatim>\<open>JSON.stringify\<close>: string quoting first.\<close>

definition hex_digit :: "nat \<Rightarrow> char" where
  "hex_digit n = ''0123456789abcdef'' ! n"

definition json_escape :: "char \<Rightarrow> string" where
  "json_escape ch =
     (if ch = CHR 0x22 then [CHR 0x5C, CHR 0x22]
      else if ch = CHR 0x5C then [CHR 0x5C, CHR 0x5C]
      else if ch = CHR 0x08 then [CHR 0x5C, CHR ''b'']
      else if ch = CHR 0x09 then [CHR 0x5C, CHR ''t'']
      else if ch = CHR 0x0A then [CHR 0x5C, CHR ''n'']
      else if ch = CHR 0x0C then [CHR 0x5C, CHR ''f'']
      else if ch = CHR 0x0D then [CHR 0x5C, CHR ''r'']
      else if of_char ch < (32 :: nat)
        then [CHR 0x5C, CHR ''u'', CHR ''0'', CHR ''0'',
              hex_digit (of_char ch div 16), hex_digit (of_char ch mod 16)]
      else [ch])"

definition json_quote :: "string \<Rightarrow> string" where
  "json_quote s = CHR 0x22 # concat (map json_escape s) @ [CHR 0x22]"

text \<open>
  \<open>json_value\<close> is the text of a value inside an array or as a property value;
  a property whose value is \<^verbatim>\<open>undefined\<close> is left out of an object and an
  \<^verbatim>\<open>undefined\<close> array element is written \<^verbatim>\<open>null\<close>.
\<close>

fun json_value :: "jsval \<Rightarrow> string" where
  "json_value JUndefined = ''null''"
| "json_value JNull = ''null''"
| "json_value (JBool b) = (if b then ''true'' else ''false'')"
| "json_value (JNum i) = show_int i"
| "json_value (JStr s) = json_quote s"
| "json_value (JArr vs) = ''['' @ js_join '','' (map json_value vs) @ '']''"
| "json_value (JObj kvs) =
     ''{'' @ js_join '',''
        (map (\<lambda>(k, v). json_quote k @ '':'' @ json_value v)
           (filter (\<lambda>(k, v). v \<noteq> JUndefined) kvs)) @ ''}''"

definition JSON_stringify :: "(string \<times> jsval) list \<Rightarrow> string" where
  "JSON_stringify obj = json_value (JObj obj)"

section \<open>The change aggregator\<close>

text \<open>
  \<^verbatim>\<open>DesignChange\<close> of \<^verbatim>\<open>types/index.ts\<close>. The declared \<^verbatim>\<open>ChangeType\<close> is a union of six
  string literals that exists only at compile time, so the field is a string here and
  the \<^verbatim>\<open>default\<close> branch of \<^verbatim>\<open>describeChange\<close> can be reached. The fields
  \<open>ctype\<close> and \<open>cfile\<close> are the source's \<^verbatim>\<open>type\<close> and \<^verbatim>\<open>file\<close>.
\<close>

record DesignChange =
  ctype :: string
  elementId :: string
  cfile :: string
  component :: "string option"
  change :: "(string \<times> jsval) list"
  timestamp :: nat

definition dq :: string where
  "dq = [CHR 0x22]"

definition elementRef :: "DesignChange \<Rightarrow> string" where
  "elementRef c =
     (case component c of
        None \<Rightarrow> elementId c
      | Some cn \<Rightarrow> if cn \<noteq> [] then cn @ '' ('' @ elementId c @ '')'' else elementId c)"

definition describeChange :: "DesignChange \<Rightarrow> string" where
  "describeChange c =
     (if ctype c = ''style'' then
        ''Change styles of '' @ dq @ elementRef c @ dq @ '' to: '' @
          js_join '', '' (map (\<lambda>(p, v). p @ '': '' @ to_string v) (change c))
      else if ctype c = ''content'' then
        ''Change content of '' @ dq @ elementRef c @ dq @ '' to: '' @ dq @
          to_string (js_or (get_prop (change c) ''text'') (get_prop (change c) ''content'')) @ dq
      else if ctype c = ''prop'' then
        ''Update props of '' @ dq @ elementRef c @ dq @ '': '' @
          js_join '', '' (map (\<lambda>(p, v). p @ ''='' @ dq @ to_string v @ dq) (change c))
      else if ctype c = ''add'' then
        ''Add new '' @ to_string (js_or (get_prop (change c) ''type'') (JStr ''element'')) @
          '' inside '' @ dq @ elementRef c @ dq
      else if ctype c = ''delete'' then
        ''Remove element '' @ dq @ elementRef c @ dq
      else if ctype c = ''move'' then
        ''Move '' @ dq @ elementRef c @ dq @ '' '' @
          to_string (js_or (get_prop (change c) ''position'') (JStr ''inside'')) @
          '' '' @ dq @ to_string (get_prop (change c) ''target'') @ dq
      else
        ''Update '' @ dq @ elementRef c @ dq @ '': '' @ JSON_stringify (change c))"

text \<open>
  A JavaScript \<^verbatim>\<open>Map\<close> keeps its keys in insertion order; \<^verbatim>\<open>set\<close> on a key that is
  present replaces the value where it stands.
\<close>

fun map_set :: "('k \<times> 'v) list \<Rightarrow> 'k \<Rightarrow> 'v \<Rightarrow> ('k \<times> 'v) list" where
  "map_set [] k v = [(k, v)]"
| "map_set ((k', v') # m) k v = (if k' = k then (k, v) # m else (k', v') # map_set m k v)"

fun groupChangesByFile ::
  "DesignChange list \<Rightarrow> (string \<times> DesignChange list) list \<Rightarrow> (string \<times> DesignChange list) list"
where
  "groupChangesByFile [] grouped = grouped"
| "groupChangesByFile (c # cs) grouped =
     groupChangesByFile cs
       (map_set grouped (cfile c)
          ((case map_of grouped (cfile c) of Some existing \<Rightarrow> existing | None \<Rightarrow> []) @ [c]))"

definition buildPrompt :: "(string \<times> DesignChange list) list \<Rightarrow> string" where
  "buildPrompt changesByFile =
     js_join [CHR 0x0A]
       ([''Apply the following design changes to the code:'', []]
        @ concat (map (\<lambda>(f, changes).
              [''## File: '' @ f, []]
              @ map (\<lambda>c. ''- '' @ describeChange c) changes
              @ [[]]) changesByFile)
        @ [''Return the updated code using the boltArtifact format. Only include files that changed.''])"

text \<open>
  The engine object together with the part of its environment it talks to. The first
  three fields are the private fields of \<^verbatim>\<open>DesignToCodeEngine\<close>; the two flags say
  whether the optional callbacks were given. \<open>timers\<close> holds the handles of the
  timeouts that are scheduled and have neither fired nor been cleared; \<open>suspended\<close> holds,
  for each activation of \<^verbatim>\<open>processChanges\<close> waiting at its \<^verbatim>\<open>await\<close>, the local
  \<^verbatim>\<open>changes\<close> of that activation; \<open>sendCalls\<close> is the log of prompts handed to
  \<^verbatim>\<open>onSendToAI\<close>, \<open>previewCalls\<close> and \<open>errorCalls\<close> log the other two callbacks.
  \<^verbatim>\<open>onSendToAI\<close> returns a promise, as its type says; its settling is an event of its own.
\<close>

record engine =
  pendingChanges :: "DesignChange list"
  debounceTimer :: "nat option"
  isProcessing :: bool
  hasInstantPreview :: bool
  hasOnError :: bool
  timers :: "nat list"
  nextHandle :: nat
  suspended :: "DesignChange list list"
  sendCalls :: "string list"
  previewCalls :: "(string \<times> (string \<times> jsval) list) list"
  errorCalls :: nat

definition new_engine :: "bool \<Rightarrow> bool \<Rightarrow> engine" where
  "new_engine preview onerr =
     \<lparr>pendingChanges = [], debounceTimer = None, isProcessing = False,
      hasInstantPreview = preview, hasOnError = onerr,
      timers = [], nextHandle = 1, suspended = [], sendCalls = [],
      previewCalls = [], errorCalls = 0\<rparr>"

text \<open>
  \<^verbatim>\<open>if (this.debounceTimer) clearTimeout(this.debounceTimer)\<close>: a handle is a positive
  number, and clearing one that has fired already changes nothing.
\<close>

definition clearDebounce :: "engine \<Rightarrow> engine" where
  "clearDebounce w =
     (case debounceTimer w of
        None \<Rightarrow> w
      | Some h \<Rightarrow> if h \<noteq> 0 then w\<lparr>timers := removeAll h (timers w)\<rparr> else w)"

text \<open>\<^verbatim>\<open>processChanges\<close> up to its \<^verbatim>\<open>await\<close>.\<close>

definition processChanges :: "engine \<Rightarrow> engine" where
  "processChanges w =
     (if isProcessing w \<or> pendingChanges w = [] then w
      else
        let changes = pendingChanges w;
            prompt = buildPrompt (groupChangesByFile changes [])
        in w\<lparr>isProcessing := True, pendingChanges := [],
             sendCalls := sendCalls w @ [prompt],
             suspended := suspended w @ [changes]\<rparr>)"

text \<open>
  The rest of \<^verbatim>\<open>processChanges\<close>, run when the promise of activation \<open>i\<close> settles:
  the \<^verbatim>\<open>catch\<close> block on rejection, then the \<^verbatim>\<open>finally\<close> block.
\<close>

definition resumeProcess :: "nat \<Rightarrow> bool \<Rightarrow> engine \<Rightarrow> engine" where
  "resumeProcess i ok w =
     (let w1 = (if \<not> ok \<and> hasOnError w then w\<lparr>errorCalls := Suc (errorCalls w)\<rparr> else w)
      in w1\<lparr>isProcessing := False,
            suspended := take i (suspended w1) @ drop (Suc i) (suspended w1)\<rparr>)"

definition queueChange :: "DesignChange \<Rightarrow> nat \<Rightarrow> engine \<Rightarrow> engine" where
  "queueChange c now w =
     (let fullChange = c\<lparr>timestamp := now\<rparr>;
          w1 = w\<lparr>pendingChanges := pendingChanges w @ [fullChange]\<rparr>;
          w2 = (if ctype c = ''style'' \<and> hasInstantPreview w1
                then w1\<lparr>previewCalls := previewCalls w1 @ [(elementId c, change c)]\<rparr>
                else w1);
          w3 = clearDebounce w2;
          h = nextHandle w3
      in w3\<lparr>debounceTimer := Some h, timers := timers w3 @ [h], nextHandle := Suc h\<rparr>)"

definition flush :: "engine \<Rightarrow> engine" where
  "flush w = processChanges ((clearDebounce w)\<lparr>debounceTimer := None\<rparr>)"

definition clear :: "engine \<Rightarrow> engine" where
  "clear w = (clearDebounce w)\<lparr>debounceTimer := None, pendingChanges := []\<rparr>"

definition getPendingCount :: "engine \<Rightarrow> nat" where
  "getPendingCount w = length (pendingChanges w)"

definition getIsProcessing :: "engine \<Rightarrow> bool" where
  "getIsProcessing w = isProcessing w"

text \<open>
  What can happen to an engine: a call of one of its three methods, the expiry of a
  scheduled timeout, the settling of the promise an activation waits for. The last two
  are the environment's moves and are possible only while the timeout is scheduled,
  respectively while the activation is suspended.
\<close>

datatype event =
    QueueChange DesignChange nat
  | Flush
  | Clear
  | TimerFire nat
  | Settle nat bool

fun step :: "event \<Rightarrow> engine \<Rightarrow> engine option" where
  "step (QueueChange c now) w = Some (queueChange c now w)"
| "step Flush w = Some (flush w)"
| "step Clear w = Some (clear w)"
| "step (TimerFire h) w =
     (if h \<in> set (timers w) then Some (processChanges (w\<lparr>timers := removeAll h (timers w)\<rparr>))
      else None)"
| "step (Settle i ok) w =
     (if i < length (suspended w) then Some (resumeProcess i ok w) else None)"

fun run :: "event list \<Rightarrow> engine \<Rightarrow> engine option" where
  "run [] w = Some w"
| "run (e # es) w = (case step e w of None \<Rightarrow> None | Some w' \<Rightarrow> run es w')"

text \<open>The environment's moves that are possible in a state.\<close>

definition env_enabled :: "engine \<Rightarrow> event list" where
  "env_enabled w =
     map TimerFire (timers w)
     @ concat (map (\<lambda>i. [Settle i True, Settle i False]) [0 ..< length (suspended w)])"

inductive reachable :: "bool \<Rightarrow> bool \<Rightarrow> engine \<Rightarrow> bool" where
  init: "reachable p e (new_engine p e)"
| step: "reachable p e w \<Longrightarrow> step ev w = Some w' \<Longrightarrow> reachable p e w'"

text \<open>
  The description the \<^verbatim>\<open>default\<close> branch gives, as the specification words it:
  "update <target>: <raw JSON dump of change>".
\<close>

definition genericDescription :: "DesignChange \<Rightarrow> string" where
  "genericDescription c = ''Update '' @ dq @ elementRef c @ dq @ '': '' @ JSON_stringify (change c)"

definition declared_types :: "string list" where
  "declared_types = [''style'', ''content'', ''prop'', ''add'', ''delete'', ''move'']"

definition is_env :: "event \<Rightarrow> bool" where
  "is_env ev = (case ev of TimerFire h \<Rightarrow> True | Settle i ok \<Rightarrow> True | _ \<Rightarrow> False)"

text \<open>At most one activation is suspended, and the flag is set exactly while one is.\<close>

definition engine_inv :: "engine \<Rightarrow> bool" where
  "engine_inv w = (length (suspended w) \<le> 1 \<and> (isProcessing w \<longleftrightarrow> suspended w \<noteq> []))"

text \<open>Two sample changes, and the engine after the first was queued and flushed.\<close>

definition ch1 :: DesignChange where
  "ch1 = \<lparr>ctype = ''style'', elementId = ''btn-1'', cfile = ''src/App.jsx'', component = None,
          change = [(''color'', JStr ''#fff'')], timestamp = 0\<rparr>"

definition ch2 :: DesignChange where
  "ch2 = \<lparr>ctype = ''content'', elementId = ''title'', cfile = ''src/App.jsx'', component = None,
          change = [(''text'', JStr ''Hi'')], timestamp = 0\<rparr>"

definition busy_engine :: engine where
  "busy_engine = flush (queueChange ch1 1 (new_engine False False))"


text \<open>
  The changes queued along a sequence of events, each with the timestamp it was given,
  in the order of the calls; and the prompt \<^verbatim>\<open>processChanges\<close> builds for a batch.
\<close>

fun queued :: "event list \<Rightarrow> DesignChange list" where
  "queued [] = []"
| "queued (QueueChange c now # es) = c\<lparr>timestamp := now\<rparr> # queued es"
| "queued (ev # es) = queued es"

definition batch_prompt :: "DesignChange list \<Rightarrow> string" where
  "batch_prompt b = buildPrompt (groupChangesByFile b [])"

text \<open>
  The batches \<open>bs\<close> account for a run \<open>es\<close> from \<open>w0\<close> to \<open>w\<close>: the prompts sent during
  the run are those of the batches, in order; no batch is empty; the batches followed by
  the pending queue are, in order, changes that were pending at the start or queued
  during the run, each at most once, and all of them when the queue was never cleared;
  and a batch in flight at the end is the last one.
\<close>

definition ledger :: "engine \<Rightarrow> event list \<Rightarrow> engine \<Rightarrow> DesignChange list list \<Rightarrow> bool" where
  "ledger w0 es w bs =
     (sendCalls w = sendCalls w0 @ map batch_prompt bs \<and> [] \<notin> set bs
      \<and> subseq (concat bs @ pendingChanges w) (pendingChanges w0 @ queued es)
      \<and> (Clear \<notin> set es \<longrightarrow> concat bs @ pendingChanges w = pendingChanges w0 @ queued es)
      \<and> (isProcessing w \<longrightarrow> suspended w = (if bs = [] then suspended w0 else [last bs])))"

section \<open>Building the file tree\<close>

text \<open>
  \<^verbatim>\<open>fileMapToTree\<close> builds its result by mutating objects that several variables refer
  to, so the model keeps a store: \<^verbatim>\<open>FileNode\<close> objects and \<^verbatim>\<open>Map\<close> objects live in two
  lists and are referred to by their index. An array of nodes is a list of references;
  the function never changes an array in place, it only assigns a new one to
  \<^verbatim>\<open>folder.children\<close>. A read through a reference that does not exist makes the result
  \<open>None\<close>. The field \<open>ntype\<close> is the source's \<^verbatim>\<open>type\<close>.
\<close>

datatype node_type = File | Folder

record FileNode =
  name :: string
  ntype :: node_type
  path :: string
  children :: "nat list option"
  content :: "string option"

record store =
  nodes :: "FileNode list"
  maps :: "(string \<times> nat) list list"

definition deref :: "'a list \<Rightarrow> nat \<Rightarrow> 'a option" where
  "deref xs a = (if a < length xs then Some (xs ! a) else None)"

text \<open>
  The loop \<^verbatim>\<open>for (const child of folder.children) nextLevel.set(child.name, child)\<close>
  on the map object \<open>nl\<close>.
\<close>

fun fill_level :: "nat list \<Rightarrow> nat \<Rightarrow> store \<Rightarrow> store option" where
  "fill_level [] nl h = Some h"
| "fill_level (child # rest) nl h =
     (case deref (nodes h) child of
        None \<Rightarrow> None
      | Some cnode \<Rightarrow>
          (case deref (maps h) nl of
             None \<Rightarrow> None
           | Some m \<Rightarrow> fill_level rest nl (h\<lparr>maps := (maps h)[nl := map_set m (name cnode) child]\<rparr>)))"

text \<open>
  The inner loop over the parts of one path. \<open>passed\<close> holds the parts already passed
  (\<^verbatim>\<open>parts.slice(0, i)\<close>), \<open>part # rest\<close> the parts from index \<open>i\<close> on, and
  \<open>currentLevel\<close> is the reference held by the variable of that name.
\<close>

fun walk_parts ::
  "(string \<times> string) list \<Rightarrow> string \<Rightarrow> string list \<Rightarrow> string list \<Rightarrow> nat \<Rightarrow> store
     \<Rightarrow> store option"
where
  "walk_parts files p passed [] currentLevel h = Some h"
| "walk_parts files p passed (part # rest) currentLevel h =
     (let isFile = (rest = []);
          currentPath = js_join ''/'' (passed @ [part])
      in case deref (maps h) currentLevel of
           None \<Rightarrow> None
         | Some m \<Rightarrow>
             let h1 = (if map_of m part = None
                       then let node = \<lparr>name = part,
                                        ntype = (if isFile then File else Folder),
                                        path = currentPath,
                                        children = (if isFile then None else Some []),
                                        content = (if isFile then map_of files p else None)\<rparr>
                            in h\<lparr>nodes := nodes h @ [node],
                                 maps := (maps h)[currentLevel := map_set m part (length (nodes h))]\<rparr>
                       else h)
             in if isFile then walk_parts files p (passed @ [part]) rest currentLevel h1
                else
                  (case deref (maps h1) currentLevel of
                     None \<Rightarrow> None
                   | Some m1 \<Rightarrow>
                       (case map_of m1 part of
                          None \<Rightarrow> None
                        | Some folder \<Rightarrow>
                            (case deref (nodes h1) folder of
                               None \<Rightarrow> None
                             | Some fnode \<Rightarrow>
                                 let kids = (case children fnode of None \<Rightarrow> [] | Some ks \<Rightarrow> ks);
                                     nextLevel = length (maps h1);
                                     h2 = h1\<lparr>maps := maps h1 @ [[]]\<rparr>
                                 in (case fill_level kids nextLevel h2 of
                                       None \<Rightarrow> None
                                     | Some h3 \<Rightarrow>
                                         (case deref (maps h3) nextLevel of
                                            None \<Rightarrow> None
                                          | Some nl \<Rightarrow>
                                              walk_parts files p (passed @ [part]) rest nextLevel
                                                (h3\<lparr>nodes := (nodes h3)
                                                       [folder := fnode\<lparr>children := Some (map snd nl)\<rparr>]\<rparr>)))))))"

text \<open>The outer loop over the keys of the file map, \<open>root\<close> being map object 0.\<close>

fun walk_files :: "(string \<times> string) list \<Rightarrow> (string \<times> string) list \<Rightarrow> store \<Rightarrow> store option" where
  "walk_files files [] h = Some h"
| "walk_files files ((p, c) # others) h =
     (case walk_parts files p [] (js_split CHR ''/'' p) 0 h of
        None \<Rightarrow> None
      | Some h' \<Rightarrow> walk_files files others h')"

text \<open>
  The result is the array \<^verbatim>\<open>Array.from(root.values())\<close> of references, together with
  the store they point into.
\<close>

definition fileMapToTree :: "(string \<times> string) list \<Rightarrow> (nat list \<times> store) option" where
  "fileMapToTree files =
     (case walk_files files files \<lparr>nodes = [], maps = [[]]\<rparr> of
        None \<Rightarrow> None
      | Some h \<Rightarrow>
          (case deref (maps h) 0 of
             None \<Rightarrow> None
           | Some root \<Rightarrow> Some (map snd root, h)))"

text \<open>
  The full traversal of a returned tree that collects the path of every file node: a
  node contributes its own path when it is a file, then the traversal visits its
  children. \<open>depth\<close> bounds how deep the traversal descends.
\<close>

fun file_paths :: "nat \<Rightarrow> store \<Rightarrow> nat list \<Rightarrow> string list" where
  "file_paths 0 h refs = []"
| "file_paths (Suc depth) h refs =
     concat (map (\<lambda>r. case deref (nodes h) r of
                         None \<Rightarrow> []
                       | Some nd \<Rightarrow>
                           (if ntype nd = File then [path nd] else [])
                           @ file_paths depth h (case children nd of None \<Rightarrow> [] | Some ks \<Rightarrow> ks))
                 refs)"

section \<open>Regular expressions\<close>

text \<open>
  The patterns of \<^verbatim>\<open>artifactParser.ts\<close> use literal characters, character classes,
  a class repeated at least \<open>n\<close> times (greedy or lazy), optional groups, alternatives
  and capture groups. A pattern is a list of such items, matched by backtracking the
  way a JavaScript engine does: alternatives are tried left to right, a greedy
  repetition tries the longest run first, a lazy one the shortest. \<open>CapEnd\<close> is put
  behind the body of a capture group while the group is being matched and remembers
  the input at which the group began.
\<close>

datatype rx =
    Lit char
  | Cls "char \<Rightarrow> bool"
  | Rep bool nat "char \<Rightarrow> bool"
  | Opt "rx list"
  | Alt "rx list list"
  | Cap nat "rx list"
  | CapEnd nat string

fun weight :: "rx \<Rightarrow> nat" where
  "weight (Lit a) = 1"
| "weight (Cls p) = 1"
| "weight (Rep g n p) = 1"
| "weight (Opt r) = 1 + sum_list (map weight r)"
| "weight (Alt rs) = 1 + sum_list (map (\<lambda>r. 1 + sum_list (map weight r)) rs)"
| "weight (Cap n r) = 2 + sum_list (map weight r)"
| "weight (CapEnd n s) = 1"

text \<open>
  With the \<^verbatim>\<open>i\<close> flag two characters match when their upper-case forms agree. Every
  literal of the patterns is ASCII, and no character beyond ASCII has an ASCII
  upper-case form, so folding the ASCII letters is enough.
\<close>

definition to_upper :: "char \<Rightarrow> char" where
  "to_upper ch =
     (case map_of (zip ''abcdefghijklmnopqrstuvwxyz'' ''ABCDEFGHIJKLMNOPQRSTUVWXYZ'') ch of
        Some u \<Rightarrow> u
      | None \<Rightarrow> ch)"

definition chr_eq :: "bool \<Rightarrow> char \<Rightarrow> char \<Rightarrow> bool" where
  "chr_eq ci a x = (if ci then to_upper a = to_upper x else a = x)"

text \<open>
  \<open>bt ci k s c\<close> matches the items \<open>k\<close> at the start of \<open>s\<close>, with the captures \<open>c\<close>
  made so far, and returns the captures and the input left over.
\<close>

function (sequential) bt ::
  "bool \<Rightarrow> rx list \<Rightarrow> string \<Rightarrow> (nat \<rightharpoonup> string) \<Rightarrow> ((nat \<rightharpoonup> string) \<times> string) option"
where
  "bt ci [] s c = Some (c, s)"
| "bt ci (Lit a # k) [] c = None"
| "bt ci (Lit a # k) (x # xs) c = (if chr_eq ci a x then bt ci k xs c else None)"
| "bt ci (Cls p # k) [] c = None"
| "bt ci (Cls p # k) (x # xs) c = (if p x then bt ci k xs c else None)"
| "bt ci (Rep g (Suc n) p # k) [] c = None"
| "bt ci (Rep g (Suc n) p # k) (x # xs) c = (if p x then bt ci (Rep g n p # k) xs c else None)"
| "bt ci (Rep True 0 p # k) [] c = bt ci k [] c"
| "bt ci (Rep True 0 p # k) (x # xs) c =
     (if p x
      then (case bt ci (Rep True 0 p # k) xs c of
              Some r \<Rightarrow> Some r
            | None \<Rightarrow> bt ci k (x # xs) c)
      else bt ci k (x # xs) c)"
| "bt ci (Rep False 0 p # k) [] c = bt ci k [] c"
| "bt ci (Rep False 0 p # k) (x # xs) c =
     (case bt ci k (x # xs) c of
        Some r \<Rightarrow> Some r
      | None \<Rightarrow> if p x then bt ci (Rep False 0 p # k) xs c else None)"
| "bt ci (Opt r # k) s c =
     (case bt ci (r @ k) s c of
        Some m \<Rightarrow> Some m
      | None \<Rightarrow> bt ci k s c)"
| "bt ci (Alt [] # k) s c = None"
| "bt ci (Alt (r # rs) # k) s c =
     (case bt ci (r @ k) s c of
        Some m \<Rightarrow> Some m
      | None \<Rightarrow> bt ci (Alt rs # k) s c)"
| "bt ci (Cap n r # k) s c = bt ci (r @ CapEnd n s # k) s c"
| "bt ci (CapEnd n s0 # k) s c = bt ci k s (c(n \<mapsto> take (length s0 - length s) s0))"
  by pat_completeness auto
termination
  by (relation "measures [\<lambda>(ci, k, s, c). sum_list (map weight k), \<lambda>(ci, k, s, c). length s]")
     auto

text \<open>The first position, from the start of \<open>s\<close> on, at which the pattern matches.\<close>

fun scan :: "bool \<Rightarrow> rx list \<Rightarrow> string \<Rightarrow> (string \<times> (nat \<rightharpoonup> string) \<times> string) option" where
  "scan ci pat [] =
     (case bt ci pat [] Map.empty of None \<Rightarrow> None | Some (c, r) \<Rightarrow> Some ([], c, r))"
| "scan ci pat (x # xs) =
     (case bt ci pat (x # xs) Map.empty of
        None \<Rightarrow> scan ci pat xs
      | Some (c, r) \<Rightarrow> Some (x # xs, c, r))"

text \<open>
  \<^verbatim>\<open>regex.exec(text)\<close> for a regular expression with the \<^verbatim>\<open>g\<close> flag whose
  \<^verbatim>\<open>lastIndex\<close> is \<open>li\<close>: the search starts at \<open>li\<close>; a match is returned as the map
  from group numbers to captured text (group 0 is the whole match) and moves
  \<^verbatim>\<open>lastIndex\<close> to its end; a failure returns \<^verbatim>\<open>null\<close> and resets \<^verbatim>\<open>lastIndex\<close> to 0.
\<close>

definition exec :: "bool \<Rightarrow> rx list \<Rightarrow> string \<Rightarrow> nat \<Rightarrow> (nat \<rightharpoonup> string) option \<times> nat" where
  "exec ci pat text li =
     (if li > length text then (None, 0)
      else case scan ci pat (drop li text) of
             None \<Rightarrow> (None, 0)
           | Some (s, c, r) \<Rightarrow>
               (Some (c(0 \<mapsto> take (length s - length r) s)), length text - length r))"

text \<open>
  The loop \<^verbatim>\<open>while ((match = regex.exec(text)) !== null) { body }\<close>. It ends when
  \<^verbatim>\<open>exec\<close> fails; a pattern that matched the empty string would leave \<^verbatim>\<open>lastIndex\<close>
  where it was and the loop would run forever, which is the value \<open>None\<close> here.
\<close>

partial_function (option) exec_loop ::
  "bool \<Rightarrow> rx list \<Rightarrow> string \<Rightarrow> ((nat \<rightharpoonup> string) \<Rightarrow> 'a \<Rightarrow> 'a) \<Rightarrow> nat \<Rightarrow> 'a \<Rightarrow> ('a \<times> nat) option"
where
  "exec_loop ci pat text body li acc =
     (case fst (exec ci pat text li) of
        None \<Rightarrow> Some (acc, snd (exec ci pat text li))
      | Some m \<Rightarrow> exec_loop ci pat text body (snd (exec ci pat text li)) (body m acc))"

declare exec_loop.simps [code]

text \<open>
  \<^verbatim>\<open>s.replace(regex, rep)\<close> for a regular expression with the \<^verbatim>\<open>g\<close> flag and a
  replacement without \<^verbatim>\<open>$\<close>: every match, found from left to right without overlap, is
  replaced; after an empty match the search moves on by one character. The call starts
  from \<^verbatim>\<open>lastIndex\<close> 0 whatever it was and leaves it 0.
\<close>

function replace_all :: "bool \<Rightarrow> rx list \<Rightarrow> string \<Rightarrow> string \<Rightarrow> string" where
  "replace_all ci pat rep s =
     (case bt ci pat s Map.empty of
        Some (c, r) \<Rightarrow>
          if length r < length s then rep @ replace_all ci pat rep r
          else rep @ (case s of [] \<Rightarrow> [] | x # xs \<Rightarrow> x # replace_all ci pat rep xs)
      | None \<Rightarrow> (case s of [] \<Rightarrow> [] | x # xs \<Rightarrow> x # replace_all ci pat rep xs))"
  by pat_completeness auto
termination
  by (relation "measure (\<lambda>(ci, pat, rep, s). length s)") auto

declare replace_all.simps [simp del]

text \<open>The character classes of the patterns.\<close>

definition js_word :: "char \<Rightarrow> bool" where
  "js_word ch = (ch \<in> set ''ABCDEFGHIJKLMNOPQRSTUVWXYZabcdefghijklmnopqrstuvwxyz0123456789_'')"

definition any_chr :: "char \<Rightarrow> bool" where
  "any_chr ch = True"

definition not_chr :: "char \<Rightarrow> char \<Rightarrow> bool" where
  "not_chr a ch = (ch \<noteq> a)"

definition lit :: "string \<Rightarrow> rx list" where
  "lit s = map Lit s"

section \<open>The artifact parser\<close>

text \<open>The entries of \<^verbatim>\<open>PATTERNS\<close>, each with its \<^verbatim>\<open>i\<close> flag; all of them have the \<^verbatim>\<open>g\<close> flag.\<close>

definition is_chr :: "char \<Rightarrow> char \<Rightarrow> bool" where
  "is_chr a ch = (ch = a)"

definition boltArtifact_rx :: "rx list" where
  "boltArtifact_rx =
     lit ''<boltArtifact'' @ [Rep True 0 (not_chr CHR ''>'')] @ lit ''title=''
     @ [Lit CHR 0x22, Cap 1 [Rep True 0 (not_chr CHR 0x22)], Lit CHR 0x22,
        Rep True 0 (not_chr CHR ''>''), Lit CHR ''>'', Cap 2 [Rep False 0 any_chr]]
     @ lit ''</boltArtifact>''"

definition boltAction_rx :: "rx list" where
  "boltAction_rx =
     lit ''<boltAction'' @ [Rep True 1 js_space] @ lit ''type=''
     @ [Lit CHR 0x22, Cap 1 [Rep True 1 js_word], Lit CHR 0x22,
        Opt ([Rep True 1 js_space] @ lit ''filePath=''
             @ [Lit CHR 0x22, Cap 2 [Rep True 1 (not_chr CHR 0x22)], Lit CHR 0x22]),
        Rep True 0 (not_chr CHR ''>''), Lit CHR ''>'', Cap 3 [Rep False 0 any_chr]]
     @ lit ''</boltAction>''"

definition lovableFile_rx :: "rx list" where
  "lovableFile_rx =
     lit ''<file'' @ [Rep True 1 js_space] @ lit ''path=''
     @ [Lit CHR 0x22, Cap 1 [Rep True 1 (not_chr CHR 0x22)], Lit CHR 0x22,
        Rep True 0 (not_chr CHR ''>''), Lit CHR ''>'', Cap 2 [Rep False 0 any_chr]]
     @ lit ''</file>''"

definition cursorBlock_rx :: "rx list" where
  "cursorBlock_rx =
     lit ''```'' @ [Cap 1 [Rep True 1 js_word], Lit CHR '':'',
        Cap 2 [Rep True 1 (not_chr CHR 0x0A)], Lit CHR 0x0A, Cap 3 [Rep False 0 any_chr]]
     @ lit ''```''"

definition markdownWithPath_rx :: "rx list" where
  "markdownWithPath_rx =
     lit ''```'' @ [Cap 1 [Rep True 1 js_word], Lit CHR 0x0A,
        Alt [lit ''//'', lit ''#'', lit ''<!--''], Rep True 0 js_space]
     @ lit ''filepath:''
     @ [Rep True 0 js_space, Cap 2 [Rep True 1 (not_chr CHR 0x0A)], Lit CHR 0x0A,
        Cap 3 [Rep False 0 any_chr]]
     @ lit ''```''"

definition markdownBlock_rx :: "rx list" where
  "markdownBlock_rx =
     lit ''```'' @ [Cap 1 [Rep True 1 js_word], Lit CHR 0x0A, Cap 2 [Rep False 0 any_chr]]
     @ lit ''```''"

text \<open>The two patterns written where they are used.\<close>

definition export_rx :: "rx list" where
  "export_rx =
     lit ''export'' @ [Rep True 1 js_space, Opt (lit ''default'' @ [Rep True 1 js_space]),
        Alt [lit ''function'', lit ''const'', lit ''class''], Rep True 1 js_space,
        Cap 1 [Rep True 1 js_word]]"

definition newlines_rx :: "rx list" where
  "newlines_rx = [Rep True 3 (is_chr CHR 0x0A)]"

text \<open>
  The \<^verbatim>\<open>lastIndex\<close> of the six regular expressions of \<^verbatim>\<open>PATTERNS\<close>: the state the
  module keeps between calls.
\<close>

record cursors =
  boltArtifact_li :: nat
  boltAction_li :: nat
  lovableFile_li :: nat
  cursorBlock_li :: nat
  markdownWithPath_li :: nat
  markdownBlock_li :: nat

record metadata =
  title :: "string option"

record ParsedArtifact =
  files :: "(string \<times> string) list"
  commands :: "string list"
  metadata :: "metadata option"

definition EXTENSION_MAP :: "(string \<times> string) list" where
  "EXTENSION_MAP =
     [(''typescript'', ''ts''), (''javascript'', ''js''), (''typescriptreact'', ''tsx''),
      (''javascriptreact'', ''jsx''), (''tsx'', ''tsx''), (''jsx'', ''jsx''), (''ts'', ''ts''),
      (''js'', ''js''), (''css'', ''css''), (''html'', ''html''), (''json'', ''json''),
      (''md'', ''md'')]"

text \<open>
  \<^verbatim>\<open>EXTENSION_MAP\<close> is a plain object, so \<^verbatim>\<open>EXTENSION_MAP[language]\<close> also finds what
  the object inherits from \<^verbatim>\<open>Object.prototype\<close>. Those values are built-in functions
  and objects, all truthy; the text a template literal prints for them is the
  JavaScript engine's, and is the parameter \<open>inherited\<close> of the functions below.
\<close>

definition Object_prototype_names :: "string list" where
  "Object_prototype_names =
     [''constructor'', ''hasOwnProperty'', ''isPrototypeOf'', ''propertyIsEnumerable'',
      ''toLocaleString'', ''toString'', ''valueOf'', ''__defineGetter__'',
      ''__defineSetter__'', ''__lookupGetter__'', ''__lookupSetter__'', ''__proto__'']"

definition extension :: "(string \<Rightarrow> string) \<Rightarrow> string \<Rightarrow> string \<Rightarrow> string" where
  "extension inherited language dflt =
     (case map_of EXTENSION_MAP language of
        Some ext \<Rightarrow> ext
      | None \<Rightarrow> if language \<in> set Object_prototype_names then inherited language else dflt)"

text \<open>A capture group that lies outside every optional part takes part in each match.\<close>

definition group :: "(nat \<rightharpoonup> string) \<Rightarrow> nat \<Rightarrow> string" where
  "group m i = (case m i of Some s \<Rightarrow> s | None \<Rightarrow> [])"

definition inferFilePath :: "(string \<Rightarrow> string) \<Rightarrow> string \<Rightarrow> string \<Rightarrow> string" where
  "inferFilePath inherited code language =
     (if js_includes code ''export default function App'' then ''src/App.tsx''
      else if js_includes code ''createRoot'' \<or> js_includes code ''ReactDOM.render''
        then ''src/main.tsx''
      else if js_includes code ''@tailwind'' \<or> js_includes code '':root'' then ''src/index.css''
      else if js_includes code (dq @ ''dependencies'' @ dq) \<and> js_includes code (dq @ ''name'' @ dq)
        then ''package.json''
      else if js_includes code ''<!DOCTYPE html>'' \<or> js_includes code ''<html'' then ''index.html''
      else if js_includes code ''defineConfig'' \<and> js_includes code ''vite'' then ''vite.config.ts''
      else
        (case scan False export_rx code of
           Some (s, exportMatch, r) \<Rightarrow>
             ''src/components/'' @ group exportMatch 1 @ ''.'' @ extension inherited language ''tsx''
         | None \<Rightarrow> ''src/generated.'' @ extension inherited language ''txt''))"

text \<open>
  The body of the loop over \<^verbatim>\<open>boltAction\<close> matches, shared by \<^verbatim>\<open>parseBoltFormat\<close> and
  \<^verbatim>\<open>parseStreamingArtifact\<close>; the accumulator is the pair of \<^verbatim>\<open>files\<close> and \<^verbatim>\<open>commands\<close>.
\<close>

definition action_body ::
  "(nat \<rightharpoonup> string) \<Rightarrow> (string \<times> string) list \<times> string list
     \<Rightarrow> (string \<times> string) list \<times> string list"
where
  "action_body m acc =
     (let actionType = m 1; filePath = m 2; content = group m 3
      in if actionType = Some ''file'' \<and> filePath \<noteq> None \<and> filePath \<noteq> Some []
         then (map_set (fst acc) (group m 2) (trim content), snd acc)
         else if actionType = Some ''shell'' then (fst acc, snd acc @ [trim content])
         else acc)"

definition parseBoltFormat :: "string \<Rightarrow> cursors \<Rightarrow> (ParsedArtifact option \<times> cursors) option" where
  "parseBoltFormat text P =
     (let r = exec True boltArtifact_rx text 0;
          P1 = P\<lparr>boltArtifact_li := snd r\<rparr>
      in case fst r of
           None \<Rightarrow> Some (None, P1)
         | Some artifactMatch \<Rightarrow>
             (case exec_loop True boltAction_rx (group artifactMatch 2) action_body 0 ([], []) of
                None \<Rightarrow> None
              | Some (acc, li) \<Rightarrow>
                  let P2 = P1\<lparr>boltAction_li := li\<rparr>
                  in if fst acc = [] \<and> snd acc = [] then Some (None, P2)
                     else Some (Some \<lparr>files = fst acc, commands = snd acc,
                                      metadata = Some \<lparr>title = artifactMatch 1\<rparr>\<rparr>, P2)))"

definition lovable_body :: "(nat \<rightharpoonup> string) \<Rightarrow> (string \<times> string) list \<Rightarrow> (string \<times> string) list" where
  "lovable_body m fs = map_set fs (group m 1) (trim (group m 2))"

definition parseLovableFormat :: "string \<Rightarrow> cursors \<Rightarrow> (ParsedArtifact option \<times> cursors) option" where
  "parseLovableFormat text P =
     (case exec_loop True lovableFile_rx text lovable_body 0 [] of
        None \<Rightarrow> None
      | Some (fs, li) \<Rightarrow>
          let P1 = P\<lparr>lovableFile_li := li\<rparr>
          in if fs = [] then Some (None, P1)
             else Some (Some \<lparr>files = fs, commands = [], metadata = None\<rparr>, P1))"

text \<open>
  The body shared by \<^verbatim>\<open>parseCursorFormat\<close> and \<^verbatim>\<open>parseMarkdownWithPath\<close>:
  \<^verbatim>\<open>if (filePath) files.set(filePath.trim(), content.trim())\<close>.
\<close>

definition path_body :: "(nat \<rightharpoonup> string) \<Rightarrow> (string \<times> string) list \<Rightarrow> (string \<times> string) list" where
  "path_body m fs =
     (if m 2 \<noteq> None \<and> m 2 \<noteq> Some [] then map_set fs (trim (group m 2)) (trim (group m 3))
      else fs)"

definition parseCursorFormat :: "string \<Rightarrow> cursors \<Rightarrow> (ParsedArtifact option \<times> cursors) option" where
  "parseCursorFormat text P =
     (case exec_loop False cursorBlock_rx text path_body 0 [] of
        None \<Rightarrow> None
      | Some (fs, li) \<Rightarrow>
          let P1 = P\<lparr>cursorBlock_li := li\<rparr>
          in if fs = [] then Some (None, P1)
             else Some (Some \<lparr>files = fs, commands = [], metadata = None\<rparr>, P1))"

definition parseMarkdownWithPath :: "string \<Rightarrow> cursors \<Rightarrow> (ParsedArtifact option \<times> cursors) option" where
  "parseMarkdownWithPath text P =
     (case exec_loop True markdownWithPath_rx text path_body 0 [] of
        None \<Rightarrow> None
      | Some (fs, li) \<Rightarrow>
          let P1 = P\<lparr>markdownWithPath_li := li\<rparr>
          in if fs = [] then Some (None, P1)
             else Some (Some \<lparr>files = fs, commands = [], metadata = None\<rparr>, P1))"

definition markdown_body ::
  "(string \<Rightarrow> string) \<Rightarrow> (nat \<rightharpoonup> string) \<Rightarrow> (string \<times> string) list \<Rightarrow> (string \<times> string) list"
where
  "markdown_body inherited m fs =
     (let language = group m 1; content = group m 2
      in if language \<in> set [''text'', ''bash'', ''shell'', ''sh'', ''console''] then fs
         else map_set fs (inferFilePath inherited content language) (trim content))"

definition parseMarkdownBlocks ::
  "(string \<Rightarrow> string) \<Rightarrow> string \<Rightarrow> cursors \<Rightarrow> (ParsedArtifact option \<times> cursors) option"
where
  "parseMarkdownBlocks inherited text P =
     (case exec_loop False markdownBlock_rx text (markdown_body inherited) 0 [] of
        None \<Rightarrow> None
      | Some (fs, li) \<Rightarrow>
          let P1 = P\<lparr>markdownBlock_li := li\<rparr>
          in if fs = [] then Some (None, P1)
             else Some (Some \<lparr>files = fs, commands = [], metadata = None\<rparr>, P1))"

text \<open>\<^verbatim>\<open>result && result.files.size > 0\<close>, the test \<^verbatim>\<open>parseArtifact\<close> puts on every format.\<close>

definition has_files :: "ParsedArtifact option \<Rightarrow> bool" where
  "has_files r = (case r of None \<Rightarrow> False | Some a \<Rightarrow> files a \<noteq> [])"

definition or_else ::
  "(ParsedArtifact option \<times> cursors) option \<Rightarrow> (cursors \<Rightarrow> (ParsedArtifact \<times> cursors) option)
     \<Rightarrow> (ParsedArtifact \<times> cursors) option"
where
  "or_else res next =
     (case res of
        None \<Rightarrow> None
      | Some (None, P) \<Rightarrow> next P
      | Some (Some a, P) \<Rightarrow> if files a \<noteq> [] then Some (a, P) else next P)"

definition parseArtifact ::
  "(string \<Rightarrow> string) \<Rightarrow> string \<Rightarrow> cursors \<Rightarrow> (ParsedArtifact \<times> cursors) option"
where
  "parseArtifact inherited text P =
     or_else (parseBoltFormat text P) (\<lambda>P1.
     or_else (parseLovableFormat text P1) (\<lambda>P2.
     or_else (parseCursorFormat text P2) (\<lambda>P3.
     or_else (parseMarkdownWithPath text P3) (\<lambda>P4.
     or_else (parseMarkdownBlocks inherited text P4) (\<lambda>P5.
     Some (\<lparr>files = [], commands = [], metadata = None\<rparr>, P5))))))"

definition parseStreamingArtifact :: "string \<Rightarrow> cursors \<Rightarrow> (ParsedArtifact \<times> cursors) option" where
  "parseStreamingArtifact text P =
     (case exec_loop True boltAction_rx text action_body 0 ([], []) of
        None \<Rightarrow> None
      | Some (acc, li) \<Rightarrow>
          Some (\<lparr>files = fst acc, commands = snd acc, metadata = None\<rparr>, P\<lparr>boltAction_li := li\<rparr>))"

definition extractMessage :: "string \<Rightarrow> cursors \<Rightarrow> string \<times> cursors" where
  "extractMessage text P =
     (let message =
            trim (replace_all False markdownBlock_rx []
                   (replace_all False cursorBlock_rx []
                     (replace_all True lovableFile_rx []
                       (replace_all True boltArtifact_rx [] text))));
          message' = replace_all False newlines_rx [CHR 0x0A, CHR 0x0A] message
      in (message', P\<lparr>boltArtifact_li := 0, lovableFile_li := 0, cursorBlock_li := 0,
                      markdownBlock_li := 0\<rparr>))"

section \<open>Notions used to state the properties\<close>

subsection \<open>Matches of a pattern in a text\<close>

text \<open>A pattern none of whose matches is empty.\<close>

definition consuming :: "bool \<Rightarrow> rx list \<Rightarrow> bool" where
  "consuming ci pat = (\<forall>s c c' r. bt ci pat s c = Some (c', r) \<longrightarrow> length r < length s)"

text \<open>
  The successive matches of a pattern in a text, from left to right and without
  overlap: what the \<^verbatim>\<open>exec\<close> loop visits.
\<close>

function matches :: "bool \<Rightarrow> rx list \<Rightarrow> string \<Rightarrow> (nat \<rightharpoonup> string) list" where
  "matches ci pat s =
     (case bt ci pat s Map.empty of
        Some (c, r) \<Rightarrow>
          if length r < length s then c(0 \<mapsto> take (length s - length r) s) # matches ci pat r
          else []
      | None \<Rightarrow> (case s of [] \<Rightarrow> [] | x # xs \<Rightarrow> matches ci pat xs))"
  by pat_completeness auto
termination
  by (relation "measure (\<lambda>(ci, pat, s). length s)") auto

declare matches.simps [simp del]

text \<open>No match of the pattern begins inside \<open>a\<close> when \<open>a\<close> is followed by \<open>b\<close>.\<close>

definition dead :: "bool \<Rightarrow> rx list \<Rightarrow> string \<Rightarrow> string \<Rightarrow> bool" where
  "dead ci pat a b = (\<forall>i < length a. bt ci pat (drop i a @ b) Map.empty = None)"

text \<open>\<open>s\<close> begins with the literal \<open>L\<close>; \<open>L\<close> occurs somewhere in \<open>s\<close>.\<close>

definition pre_ci :: "bool \<Rightarrow> string \<Rightarrow> string \<Rightarrow> bool" where
  "pre_ci ci L s = (length L \<le> length s \<and> list_all2 (chr_eq ci) L (take (length L) s))"

fun occurs :: "bool \<Rightarrow> string \<Rightarrow> string \<Rightarrow> bool" where
  "occurs ci L [] = (L = [])"
| "occurs ci L (x # xs) = (pre_ci ci L (x # xs) \<or> occurs ci L xs)"

definition upper_letters :: string where
  "upper_letters = ''ABCDEFGHIJKLMNOPQRSTUVWXYZ''"

text \<open>A character that is no letter: with or without the \<^verbatim>\<open>i\<close> flag it matches only itself.\<close>

definition no_letter :: "char \<Rightarrow> bool" where
  "no_letter a = (to_upper a = a \<and> a \<notin> set upper_letters)"

subsection \<open>Texts made of plain fenced code blocks\<close>

text \<open>
  A plain fenced block: three backticks, the language, a line feed, the body, three
  backticks. A text of such blocks is a first stretch of prose \<open>g0\<close> followed by the
  blocks, each given as its body and the prose after it.
\<close>

definition fence :: "string \<Rightarrow> string \<Rightarrow> string" where
  "fence lang body = ''```'' @ lang @ [CHR 0x0A] @ body @ ''```''"

fun tail_doc :: "string \<Rightarrow> (string \<times> string) list \<Rightarrow> string" where
  "tail_doc lang [] = []"
| "tail_doc lang ((b, g) # bs) = fence lang b @ g @ tail_doc lang bs"

text \<open>
  The language is a non-empty word; the prose after a block has no backtick and does
  not begin with a word character (which would make the closing fence read as an opening
  one); a body has no backtick. The body of a plain block does not begin with one of
  the comment signs that introduce a \<^verbatim>\<open>filepath:\<close> line.
\<close>

definition lang_ok :: "string \<Rightarrow> bool" where
  "lang_ok lang = (lang \<noteq> [] \<and> list_all js_word lang)"

definition gap_ok :: "string \<Rightarrow> bool" where
  "gap_ok g = (CHR ''`'' \<notin> set g \<and> (g = [] \<or> \<not> js_word (hd g)))"

definition doc_ok :: "string \<Rightarrow> (string \<times> string) list \<Rightarrow> bool" where
  "doc_ok lang blocks = (lang_ok lang \<and> (\<forall>(b, g) \<in> set blocks. CHR ''`'' \<notin> set b \<and> gap_ok g))"

definition no_path_comment :: "string \<Rightarrow> bool" where
  "no_path_comment b = (b = [] \<or> hd b \<notin> {CHR ''/'', CHR ''#'', CHR ''<''})"

text \<open>What can follow a closing fence in such a text.\<close>

definition after_close :: "string \<Rightarrow> bool" where
  "after_close s = (s = [] \<or> (hd s \<noteq> CHR ''`'' \<and> \<not> js_word (hd s)) \<or> (\<exists>t. s = ''```'' @ t))"

text \<open>The match \<^verbatim>\<open>markdownBlock\<close> yields on a plain block.\<close>

definition md_match_of :: "string \<Rightarrow> string \<Rightarrow> (nat \<rightharpoonup> string)" where
  "md_match_of lang b = [1 \<mapsto> lang, 2 \<mapsto> b, 0 \<mapsto> fence lang b]"

text \<open>
  A body in which \<^verbatim>\<open>inferFilePath\<close> recognizes nothing: none of its six content
  patterns and no exported named function, const or class.
\<close>

definition no_content_pattern :: "string \<Rightarrow> bool" where
  "no_content_pattern code =
     (\<not> js_includes code ''export default function App''
      \<and> \<not> js_includes code ''createRoot'' \<and> \<not> js_includes code ''ReactDOM.render''
      \<and> \<not> js_includes code ''@tailwind'' \<and> \<not> js_includes code '':root''
      \<and> \<not> (js_includes code (dq @ ''dependencies'' @ dq) \<and> js_includes code (dq @ ''name'' @ dq))
      \<and> \<not> js_includes code ''<!DOCTYPE html>'' \<and> \<not> js_includes code ''<html''
      \<and> \<not> (js_includes code ''defineConfig'' \<and> js_includes code ''vite'')
      \<and> scan False export_rx code = None)"

definition skipped_languages :: "string list" where
  "skipped_languages = [''text'', ''bash'', ''shell'', ''sh'', ''console'']"

text \<open>The cursors after a call of \<^verbatim>\<open>parseArtifact\<close> in which no bolt container was found.\<close>

definition zero_cursors :: "cursors \<Rightarrow> cursors" where
  "zero_cursors P = P\<lparr>boltArtifact_li := 0, lovableFile_li := 0, cursorBlock_li := 0,
                       markdownWithPath_li := 0, markdownBlock_li := 0\<rparr>"

definition P0 :: cursors where
  "P0 = \<lparr>boltArtifact_li = 0, boltAction_li = 0, lovableFile_li = 0, cursorBlock_li = 0,
          markdownWithPath_li = 0, markdownBlock_li = 0\<rparr>"

subsection \<open>The message text\<close>

text \<open>
  The specification's words for the last two steps of \<^verbatim>\<open>extractMessage\<close>: every run of
  three or more consecutive line feeds becomes exactly two (one blank line), shorter
  runs stay; and a text is trimmed when it neither begins nor ends with whitespace.
  \<open>strip_blocks\<close> is the text with the matches of the four block patterns removed, in
  the order the function removes them.
\<close>

function collapse_runs :: "string \<Rightarrow> string" where
  "collapse_runs [] = []"
| "collapse_runs (x # xs) =
     (if x \<noteq> CHR 0x0A then x # collapse_runs xs
      else (if 3 \<le> length (takeWhile (is_chr CHR 0x0A) (x # xs)) then [CHR 0x0A, CHR 0x0A]
            else takeWhile (is_chr CHR 0x0A) (x # xs))
           @ collapse_runs (dropWhile (is_chr CHR 0x0A) (x # xs)))"
  by pat_completeness auto
termination
  by (relation "measure length") (auto simp: is_chr_def intro: le_imp_less_Suc length_dropWhile_le)

definition trimmed :: "string \<Rightarrow> bool" where
  "trimmed s = (s = [] \<or> (\<not> js_space (hd s) \<and> \<not> js_space (last s)))"

definition strip_blocks :: "string \<Rightarrow> string" where
  "strip_blocks text =
     replace_all False markdownBlock_rx []
       (replace_all False cursorBlock_rx []
         (replace_all True lovableFile_rx []
           (replace_all True boltArtifact_rx [] text)))"

subsection \<open>Sample texts\<close>

text \<open>A bolt container that holds one shell action and no file action.\<close>

definition shell_only :: string where
  "shell_only = ''<boltArtifact title='' @ dq @ ''t'' @ dq @ ''><boltAction type='' @ dq
     @ ''shell'' @ dq @ ''>npm i</boltAction></boltArtifact>''"

text \<open>The message of the specification's example, with a concrete fenced block.\<close>

definition example_text :: string where
  "example_text = ''Here you go:'' @ [CHR 0x0A, CHR 0x0A]
     @ fence ''js'' (''let a = 1;'' @ [CHR 0x0A]) @ [CHR 0x0A, CHR 0x0A] @ ''Done!''"


subsection \<open>Texts holding a bolt container\<close>

text \<open>
  An action of a bolt container as it is written down: a file action with its declared
  path and its content, or a shell action with its command. \<open>render_action\<close> is the tag
  of the action, \<open>artifact_block\<close> the container around the text of its actions.
\<close>

datatype action = FileAction string string | ShellAction string

fun render_action :: "action \<Rightarrow> string" where
  "render_action (FileAction p c) =
     ''<boltAction type='' @ dq @ ''file'' @ dq @ '' filePath='' @ dq @ p @ dq @ ''>'' @ c
     @ ''</boltAction>''"
| "render_action (ShellAction c) =
     ''<boltAction type='' @ dq @ ''shell'' @ dq @ ''>'' @ c @ ''</boltAction>''"

definition artifact_block :: "string \<Rightarrow> string \<Rightarrow> string" where
  "artifact_block t inner =
     ''<boltArtifact title='' @ dq @ t @ dq @ ''>'' @ inner @ ''</boltArtifact>''"

text \<open>
  Well-formedness. A title holds no double quote, no \<^verbatim>\<open>>\<close> and no \<^verbatim>\<open>title=\<close>; a declared
  path is not empty and holds no double quote; the content of an action does not hold
  the closing tag of an action; the text that follows an action, up to the next one,
  opens no action.
\<close>

definition title_ok :: "string \<Rightarrow> bool" where
  "title_ok t = (CHR 0x22 \<notin> set t \<and> CHR ''>'' \<notin> set t \<and> \<not> occurs True ''title='' t)"

fun action_ok :: "action \<Rightarrow> bool" where
  "action_ok (FileAction p c) =
     (p \<noteq> [] \<and> CHR 0x22 \<notin> set p \<and> \<not> occurs True ''</boltAction>'' c)"
| "action_ok (ShellAction c) = (\<not> occurs True ''</boltAction>'' c)"

fun actions_text :: "(action \<times> string) list \<Rightarrow> string" where
  "actions_text [] = []"
| "actions_text ((a, g) # rest) = render_action a @ g @ actions_text rest"

fun actions_ok :: "(action \<times> string) list \<Rightarrow> bool" where
  "actions_ok [] = True"
| "actions_ok ((a, g) # rest) =
     (action_ok a \<and> \<not> occurs True ''<boltAction'' g \<and> actions_ok rest)"

text \<open>The file actions and the shell actions of a list of actions, in the order written.\<close>

fun declared_files :: "action list \<Rightarrow> (string \<times> string) list" where
  "declared_files [] = []"
| "declared_files (FileAction p c # as) = (p, c) # declared_files as"
| "declared_files (ShellAction c # as) = declared_files as"

fun declared_commands :: "action list \<Rightarrow> string list" where
  "declared_commands [] = []"
| "declared_commands (FileAction p c # as) = declared_commands as"
| "declared_commands (ShellAction c # as) = c # declared_commands as"

subsection \<open>Texts made of prose and blocks of the four kinds\<close>

text \<open>
  The blocks \<^verbatim>\<open>extractMessage\<close> removes, as they are written down: a bolt container with
  its title and the text inside; a tagged file with its path and content; a fence whose
  opening line is \<^verbatim>\<open>language:path\<close>; and a plain fence, opened by a language and a line
  feed. A text of blocks gives each block with the prose that follows it.
\<close>

datatype block =
    Container string string
  | TaggedFile string string
  | PathFence string string string
  | PlainFence string string

fun render_block :: "block \<Rightarrow> string" where
  "render_block (Container t inner) = artifact_block t inner"
| "render_block (TaggedFile p c) = ''<file path='' @ dq @ p @ dq @ ''>'' @ c @ ''</file>''"
| "render_block (PathFence l p b) = ''```'' @ l @ '':'' @ p @ [CHR 0x0A] @ b @ ''```''"
| "render_block (PlainFence l b) = fence l b"

fun blocks_text :: "(block \<times> string) list \<Rightarrow> string" where
  "blocks_text [] = []"
| "blocks_text ((b, g) # rest) = render_block b @ g @ blocks_text rest"

text \<open>
  Well-formedness. A container is as above. The path of a tagged file is not empty and
  holds no double quote, and its content does not hold the closing tag. The language of
  a fence is a non-empty word, a path on the opening line is not empty and holds no line
  feed, and the body holds no backtick. A block that is no container does not hold the
  opening of a container, and a fence does not hold the opening of a tagged file. The
  prose after a block holds no \<^verbatim>\<open><\<close> and no backtick and does not begin with a word
  character.
\<close>

fun block_ok :: "block \<Rightarrow> bool" where
  "block_ok (Container t inner) = (title_ok t \<and> \<not> occurs True ''</boltArtifact>'' inner)"
| "block_ok (TaggedFile p c) =
     (p \<noteq> [] \<and> CHR 0x22 \<notin> set p \<and> \<not> occurs True ''</file>'' c
      \<and> \<not> occurs True ''<boltArtifact'' (render_block (TaggedFile p c)))"
| "block_ok (PathFence l p b) =
     (lang_ok l \<and> p \<noteq> [] \<and> CHR 0x0A \<notin> set p \<and> CHR ''`'' \<notin> set b
      \<and> \<not> occurs True ''<boltArtifact'' (render_block (PathFence l p b))
      \<and> \<not> occurs True ''<file'' (render_block (PathFence l p b)))"
| "block_ok (PlainFence l b) =
     (lang_ok l \<and> CHR ''`'' \<notin> set b
      \<and> \<not> occurs True ''<boltArtifact'' (render_block (PlainFence l b))
      \<and> \<not> occurs True ''<file'' (render_block (PlainFence l b)))"

definition prose_ok :: "string \<Rightarrow> bool" where
  "prose_ok g = (CHR ''<'' \<notin> set g \<and> gap_ok g)"

fun blocks_ok :: "(block \<times> string) list \<Rightarrow> bool" where
  "blocks_ok [] = True"
| "blocks_ok ((b, g) # rest) = (block_ok b \<and> prose_ok g \<and> blocks_ok rest)"

text \<open>
  The replacement that removes a block: the first for a container, the second for a
  tagged file, the third for a \<^verbatim>\<open>language:path\<close> fence, the fourth for a plain fence.
  \<open>after_pass n\<close> is the text with the blocks of the first \<open>n\<close> replacements left out.
\<close>

fun rank :: "block \<Rightarrow> nat" where
  "rank (Container t inner) = 1"
| "rank (TaggedFile p c) = 2"
| "rank (PathFence l p b) = 3"
| "rank (PlainFence l b) = 4"

fun after_pass :: "nat \<Rightarrow> (block \<times> string) list \<Rightarrow> string" where
  "after_pass n [] = []"
| "after_pass n ((b, g) # rest) =
     (if n < rank b then render_block b else []) @ g @ after_pass n rest"

text \<open>
  Sample texts. The first two are the message of the specification's example with a
  fence that declares no language, and with one whose language is not a word. The
  third holds one block of each kind.
\<close>

definition untagged_text :: string where
  "untagged_text = ''Here you go:'' @ [CHR 0x0A, CHR 0x0A]
     @ ''```'' @ [CHR 0x0A] @ ''let a = 1;'' @ [CHR 0x0A] @ ''```''
     @ [CHR 0x0A, CHR 0x0A] @ ''Done!''"

definition cpp_text :: string where
  "cpp_text = ''Here you go:'' @ [CHR 0x0A, CHR 0x0A]
     @ ''```c++'' @ [CHR 0x0A] @ ''int a;'' @ [CHR 0x0A] @ ''```''
     @ [CHR 0x0A, CHR 0x0A] @ ''Done!''"

definition sample_blocks :: "(block \<times> string) list" where
  "sample_blocks =
     [(Container ''App'' (render_action (ShellAction ''npm i'')), [CHR 0x0A]),
      (TaggedFile ''a.ts'' ''x < 1'', [CHR 0x0A, CHR 0x0A, CHR 0x0A]),
      (PathFence ''ts'' ''src/b.ts'' (''let b;'' @ [CHR 0x0A]), [CHR 0x0A]),
      (PlainFence ''js'' (''let a = 1;'' @ [CHR 0x0A]), [CHR 0x0A, CHR 0x0A] @ ''Done!'')]"
section \<open>Properties of the change aggregator\<close>

lemma js_includes_prefix: "take (length sub) s = sub \<Longrightarrow> js_includes s sub"
  by (cases s) auto

lemma js_includes_append: "js_includes (a @ sub @ b) sub"
  by (induction a) (simp_all add: js_includes_prefix)

lemma js_includes_iff: "js_includes s sub \<longleftrightarrow> (\<exists>a b. s = a @ sub @ b)"
proof
  assume "js_includes s sub"
  then show "\<exists>a b. s = a @ sub @ b"
  proof (induction s)
    case Nil
    then show ?case by simp
  next
    case (Cons x xs)
    show ?case
    proof (cases "take (length sub) (x # xs) = sub")
      case True
      then have "x # xs = [] @ sub @ drop (length sub) (x # xs)"
        by (metis append_Nil append_take_drop_id)
      then show ?thesis by blast
    next
      case False
      with Cons.prems have "js_includes xs sub" by simp
      with Cons.IH obtain a b where "xs = a @ sub @ b" by blast
      then have "x # xs = (x # a) @ sub @ b" by simp
      then show ?thesis by blast
    qed
  qed
next
  assume "\<exists>a b. s = a @ sub @ b"
  then show "js_includes s sub" by (auto simp: js_includes_append)
qed

lemma js_includes_mono: "js_includes s sub \<Longrightarrow> js_includes (a @ s @ b) sub"
proof -
  assume "js_includes s sub"
  then obtain u v where "s = u @ sub @ v" by (auto simp: js_includes_iff)
  then have "a @ s @ b = (a @ u) @ sub @ (v @ b)" by simp
  then show ?thesis by (metis js_includes_append)
qed

lemma processChanges_inv: "engine_inv w \<Longrightarrow> engine_inv (processChanges w)"
  by (auto simp: engine_inv_def processChanges_def Let_def)

lemma clearDebounce_fields [simp]:
  "suspended (clearDebounce w) = suspended w"
  "isProcessing (clearDebounce w) = isProcessing w"
  "sendCalls (clearDebounce w) = sendCalls w"
  "pendingChanges (clearDebounce w) = pendingChanges w"
  by (auto simp: clearDebounce_def split: option.splits)

lemma queueChange_fields [simp]:
  "suspended (queueChange c now w) = suspended w"
  "isProcessing (queueChange c now w) = isProcessing w"
  "sendCalls (queueChange c now w) = sendCalls w"
  "pendingChanges (queueChange c now w) = pendingChanges w @ [c\<lparr>timestamp := now\<rparr>]"
  by (simp_all add: queueChange_def Let_def)

lemma step_inv: "engine_inv w \<Longrightarrow> step ev w = Some w' \<Longrightarrow> engine_inv w'"
proof (cases ev)
  case (QueueChange c now)
  assume "engine_inv w" "step ev w = Some w'"
  with QueueChange show ?thesis
    by (auto simp: engine_inv_def)
next
  case Flush
  assume a: "engine_inv w" "step ev w = Some w'"
  have "engine_inv ((clearDebounce w)\<lparr>debounceTimer := None\<rparr>)"
    using a(1) by (simp add: engine_inv_def)
  with Flush a(2) show ?thesis
    by (auto simp: flush_def intro: processChanges_inv)
next
  case Clear
  assume "engine_inv w" "step ev w = Some w'"
  with Clear show ?thesis
    by (auto simp: engine_inv_def clear_def)
next
  case (TimerFire h)
  assume a: "engine_inv w" "step ev w = Some w'"
  have "engine_inv (w\<lparr>timers := removeAll h (timers w)\<rparr>)"
    using a(1) by (simp add: engine_inv_def)
  with TimerFire a(2) show ?thesis
    by (auto split: if_splits intro: processChanges_inv)
next
  case (Settle i ok)
  assume a: "engine_inv w" "step ev w = Some w'"
  with Settle show ?thesis
    by (auto simp: engine_inv_def resumeProcess_def Let_def split: if_splits)
qed

lemma reachable_inv: "reachable p e w \<Longrightarrow> engine_inv w"
proof (induction rule: reachable.induct)
  case (init p e)
  show ?case by (simp add: engine_inv_def new_engine_def)
next
  case (step p e w ev w')
  then show ?case using step_inv by blast
qed

lemma step_ledger:
  assumes "engine_inv w" "step ev w = Some w'"
  shows "(\<exists>c now. ev = QueueChange c now \<and> sendCalls w' = sendCalls w
            \<and> pendingChanges w' = pendingChanges w @ [c\<lparr>timestamp := now\<rparr>]
            \<and> suspended w' = suspended w)
       \<or> (ev = Clear \<and> sendCalls w' = sendCalls w \<and> pendingChanges w' = []
            \<and> suspended w' = suspended w)
       \<or> ((\<forall>c now. ev \<noteq> QueueChange c now) \<and> ev \<noteq> Clear \<and> sendCalls w' = sendCalls w
            \<and> pendingChanges w' = pendingChanges w
            \<and> (suspended w' = suspended w \<or> suspended w' = []))
       \<or> ((\<forall>c now. ev \<noteq> QueueChange c now) \<and> ev \<noteq> Clear \<and> pendingChanges w \<noteq> []
            \<and> sendCalls w' = sendCalls w @ [batch_prompt (pendingChanges w)]
            \<and> pendingChanges w' = [] \<and> suspended w' = [pendingChanges w])"
  using assms
  by (cases ev)
     (auto simp: engine_inv_def flush_def clear_def processChanges_def resumeProcess_def
           batch_prompt_def Let_def split: if_splits)

lemma queued_other:
  "(\<forall>c now. ev \<noteq> QueueChange c now) \<Longrightarrow> queued (ev # es) = queued es"
  by (cases ev) auto

lemma run_inv: "engine_inv w0 \<Longrightarrow> run es w0 = Some w \<Longrightarrow> engine_inv w"
proof (induction es arbitrary: w0)
  case Nil
  then show ?case by simp
next
  case (Cons ev es)
  then show ?case by (auto split: option.splits dest: step_inv)
qed

lemma run_ledger:
  "engine_inv w0 \<Longrightarrow> run es w0 = Some w \<Longrightarrow> \<exists>bs. ledger w0 es w bs"
proof (induction es arbitrary: w0)
  case Nil
  then have "ledger w0 [] w []" by (simp add: ledger_def)
  then show ?case ..
next
  case (Cons ev es)
  from Cons.prems(2) obtain w1 where s: "step ev w0 = Some w1" and r: "run es w1 = Some w"
    by (auto split: option.splits)
  have i1: "engine_inv w1" using step_inv[OF Cons.prems(1) s] .
  have iw: "engine_inv w" using run_inv[OF i1 r] .
  then have live: "isProcessing w \<Longrightarrow> suspended w \<noteq> []" by (simp add: engine_inv_def)
  from Cons.IH[OF i1 r] obtain bs where "ledger w1 es w bs" ..
  then have bs: "sendCalls w = sendCalls w1 @ map batch_prompt bs" "[] \<notin> set bs"
        "subseq (concat bs @ pendingChanges w) (pendingChanges w1 @ queued es)"
        "Clear \<notin> set es \<longrightarrow> concat bs @ pendingChanges w = pendingChanges w1 @ queued es"
        "isProcessing w \<longrightarrow> suspended w = (if bs = [] then suspended w1 else [last bs])"
    by (simp_all add: ledger_def)
  from step_ledger[OF Cons.prems(1) s] consider
      (queue) c now where "ev = QueueChange c now" "sendCalls w1 = sendCalls w0"
        "pendingChanges w1 = pendingChanges w0 @ [c\<lparr>timestamp := now\<rparr>]"
        "suspended w1 = suspended w0"
    | (clear) "ev = Clear" "sendCalls w1 = sendCalls w0" "pendingChanges w1 = []"
        "suspended w1 = suspended w0"
    | (same) "\<forall>c now. ev \<noteq> QueueChange c now" "ev \<noteq> Clear" "sendCalls w1 = sendCalls w0"
        "pendingChanges w1 = pendingChanges w0" "suspended w1 = suspended w0 \<or> suspended w1 = []"
    | (submit) "\<forall>c now. ev \<noteq> QueueChange c now" "ev \<noteq> Clear" "pendingChanges w0 \<noteq> []"
        "sendCalls w1 = sendCalls w0 @ [batch_prompt (pendingChanges w0)]" "pendingChanges w1 = []"
        "suspended w1 = [pendingChanges w0]"
    by blast
  then show ?case
  proof cases
    case queue
    with bs have "ledger w0 (ev # es) w bs" by (simp add: ledger_def)
    then show ?thesis ..
  next
    case clear
    from bs(3) clear have "subseq (concat bs @ pendingChanges w) (queued es)" by simp
    then have "subseq (concat bs @ pendingChanges w) (pendingChanges w0 @ queued es)"
      by (rule list_emb_append2)
    with bs clear have "ledger w0 (ev # es) w bs" by (simp add: ledger_def)
    then show ?thesis ..
  next
    case same
    have "isProcessing w \<longrightarrow> suspended w = (if bs = [] then suspended w0 else [last bs])"
      using bs(5) same(5) live by auto
    with bs same queued_other[OF same(1), of es]
    have "ledger w0 (ev # es) w bs" by (simp add: ledger_def)
    then show ?thesis ..
  next
    case submit
    let ?bs = "pendingChanges w0 # bs"
    from bs(3) submit have "subseq (concat bs @ pendingChanges w) (queued es)" by simp
    then have "subseq (pendingChanges w0 @ concat bs @ pendingChanges w) (pendingChanges w0 @ queued es)"
      by (simp add: list_emb_append_mono)
    moreover have "isProcessing w \<longrightarrow> suspended w = [last ?bs]"
      using bs(5) submit(6) by auto
    ultimately have "ledger w0 (ev # es) w ?bs"
      using bs submit queued_other[OF submit(1), of es] by (auto simp: ledger_def)
    then show ?thesis ..
  qed
qed

lemma run_append: "run (es @ es') w = (case run es w of None \<Rightarrow> None | Some w' \<Rightarrow> run es' w')"
  by (induction es arbitrary: w) (auto split: option.splits)

lemma reachable_trace: "reachable p e w \<Longrightarrow> \<exists>es. run es (new_engine p e) = Some w"
proof (induction rule: reachable.induct)
  case (init p e)
  have "run [] (new_engine p e) = Some (new_engine p e)" by simp
  then show ?case ..
next
  case (step p e w ev w')
  then obtain es where "run es (new_engine p e) = Some w" by blast
  with step(2) have "run (es @ [ev]) (new_engine p e) = Some w'" by (simp add: run_append)
  then show ?case ..
qed

text \<open>
  Claim C5. In every reachable state of the aggregator at most one activation of
  \<^verbatim>\<open>processChanges\<close> is waiting on the submission callback. While \<^verbatim>\<open>getIsProcessing()\<close>
  is true, a \<^verbatim>\<open>flush()\<close> or the expiry of a scheduled timeout makes no call to the
  callback and leaves the batch in flight and the pending queue as they are; and when
  the submission settles, nothing is sent again and nothing is put back on the queue.
  A \<^verbatim>\<open>flush()\<close> or an expiry that does submit, which it does when nothing is in flight and
  the queue is not empty, hands over the whole queue and leaves the queue empty: the
  batch in flight is no longer pending. Over any sequence of events that leads from a
  new aggregator to the state, the prompts sent are those of successive batches that,
  followed by the pending queue, are in order changes that were queued, each at most
  once (and all of them if \<^verbatim>\<open>clear()\<close> was never called); the batch in flight is the last
  of them. So no change, in flight or settled, is ever submitted a second time.
\<close>

theorem C5_single_flight:
  assumes "reachable p e w"
  shows "length (suspended w) \<le> 1
    \<and> (getIsProcessing w \<longrightarrow>
         sendCalls (flush w) = sendCalls w \<and> suspended (flush w) = suspended w
         \<and> pendingChanges (flush w) = pendingChanges w
         \<and> (\<forall>h w'. step (TimerFire h) w = Some w' \<longrightarrow>
               sendCalls w' = sendCalls w \<and> suspended w' = suspended w
               \<and> pendingChanges w' = pendingChanges w))
    \<and> (\<forall>i ok w'. step (Settle i ok) w = Some w' \<longrightarrow>
           sendCalls w' = sendCalls w \<and> pendingChanges w' = pendingChanges w
           \<and> suspended w' = [] \<and> \<not> getIsProcessing w')
    \<and> (\<not> getIsProcessing w \<and> pendingChanges w \<noteq> [] \<longrightarrow>
         sendCalls (flush w) = sendCalls w @ [batch_prompt (pendingChanges w)]
         \<and> suspended (flush w) = [pendingChanges w] \<and> pendingChanges (flush w) = []
         \<and> getIsProcessing (flush w)
         \<and> (\<forall>h w'. step (TimerFire h) w = Some w' \<longrightarrow>
               sendCalls w' = sendCalls w @ [batch_prompt (pendingChanges w)]
               \<and> suspended w' = [pendingChanges w] \<and> pendingChanges w' = []
               \<and> getIsProcessing w'))
    \<and> (\<exists>es. run es (new_engine p e) = Some w)
    \<and> (\<forall>es. run es (new_engine p e) = Some w \<longrightarrow>
         (\<exists>bs. sendCalls w = map batch_prompt bs \<and> [] \<notin> set bs
            \<and> subseq (concat bs @ pendingChanges w) (queued es)
            \<and> (Clear \<notin> set es \<longrightarrow> concat bs @ pendingChanges w = queued es)
            \<and> (getIsProcessing w \<longrightarrow> bs \<noteq> [] \<and> suspended w = [last bs])))"
proof -
  have inv: "engine_inv w" using assms by (rule reachable_inv)
  have old: "length (suspended w) \<le> 1
    \<and> (getIsProcessing w \<longrightarrow>
         sendCalls (flush w) = sendCalls w \<and> suspended (flush w) = suspended w
         \<and> pendingChanges (flush w) = pendingChanges w
         \<and> (\<forall>h w'. step (TimerFire h) w = Some w' \<longrightarrow>
               sendCalls w' = sendCalls w \<and> suspended w' = suspended w
               \<and> pendingChanges w' = pendingChanges w))
    \<and> (\<forall>i ok w'. step (Settle i ok) w = Some w' \<longrightarrow>
           sendCalls w' = sendCalls w \<and> pendingChanges w' = pendingChanges w
           \<and> suspended w' = [] \<and> \<not> getIsProcessing w')"
    using inv
    by (auto simp: engine_inv_def getIsProcessing_def flush_def processChanges_def
        resumeProcess_def Let_def split: if_splits)
  have submit: "\<not> getIsProcessing w \<and> pendingChanges w \<noteq> [] \<longrightarrow>
         sendCalls (flush w) = sendCalls w @ [batch_prompt (pendingChanges w)]
         \<and> suspended (flush w) = [pendingChanges w] \<and> pendingChanges (flush w) = []
         \<and> getIsProcessing (flush w)
         \<and> (\<forall>h w'. step (TimerFire h) w = Some w' \<longrightarrow>
               sendCalls w' = sendCalls w @ [batch_prompt (pendingChanges w)]
               \<and> suspended w' = [pendingChanges w] \<and> pendingChanges w' = []
               \<and> getIsProcessing w')"
    using inv
    by (auto simp: engine_inv_def getIsProcessing_def flush_def processChanges_def
        batch_prompt_def Let_def split: if_splits)
  have trace: "\<exists>es. run es (new_engine p e) = Some w" using assms by (rule reachable_trace)
  have led: "\<exists>bs. sendCalls w = map batch_prompt bs \<and> [] \<notin> set bs
            \<and> subseq (concat bs @ pendingChanges w) (queued es)
            \<and> (Clear \<notin> set es \<longrightarrow> concat bs @ pendingChanges w = queued es)
            \<and> (getIsProcessing w \<longrightarrow> bs \<noteq> [] \<and> suspended w = [last bs])"
    if r: "run es (new_engine p e) = Some w" for es
  proof -
    have "engine_inv (new_engine p e)" by (simp add: engine_inv_def new_engine_def)
    from run_ledger[OF this r] obtain bs where "ledger (new_engine p e) es w bs" ..
    then have b: "sendCalls w = map batch_prompt bs" "[] \<notin> set bs"
        "subseq (concat bs @ pendingChanges w) (queued es)"
        "Clear \<notin> set es \<longrightarrow> concat bs @ pendingChanges w = queued es"
        "isProcessing w \<longrightarrow> suspended w = (if bs = [] then [] else [last bs])"
      by (simp_all add: ledger_def new_engine_def)
    from inv b(5) have "getIsProcessing w \<longrightarrow> bs \<noteq> [] \<and> suspended w = [last bs]"
      by (auto simp: engine_inv_def getIsProcessing_def)
    with b(1-4) show ?thesis by blast
  qed
  from old submit trace led show ?thesis by blast
qed

lemma reachable_run: "reachable p e w \<Longrightarrow> run es w = Some w' \<Longrightarrow> reachable p e w'"
proof (induction es arbitrary: w)
  case Nil
  then show ?case by simp
next
  case (Cons ev es)
  then show ?case
    by (auto split: option.splits intro: reachable.step)
qed

lemma env_run_quiet:
  "list_all is_env tr \<Longrightarrow> pendingChanges w = [] \<Longrightarrow> run tr w = Some w'
   \<Longrightarrow> sendCalls w' = sendCalls w \<and> pendingChanges w' = []"
proof (induction tr arbitrary: w)
  case Nil
  then show ?case by simp
next
  case (Cons ev tr)
  from Cons.prems obtain w1 where s: "step ev w = Some w1" and r: "run tr w1 = Some w'"
    by (auto split: option.splits)
  from Cons.prems(1) have env: "is_env ev" and rest: "list_all is_env tr" by simp_all
  have "sendCalls w1 = sendCalls w \<and> pendingChanges w1 = []"
    using env s Cons.prems(2)
    by (cases ev) (auto simp: is_env_def processChanges_def resumeProcess_def Let_def split: if_splits)
  with Cons.IH[OF rest _ r] show ?case by simp
qed

lemma flush_after_queue:
  "sendCalls (flush (queueChange c now (new_engine p e)))
     = [buildPrompt [(cfile c, [c\<lparr>timestamp := now\<rparr>])]]"
  "pendingChanges (flush (queueChange c now (new_engine p e))) = []"
  by (simp_all add: flush_def processChanges_def Let_def new_engine_def)

text \<open>
  Claim C6. From a new (idle) aggregator, \<^verbatim>\<open>queueChange\<close> of a style change of element
  \<^verbatim>\<open>btn-1\<close> in file \<^verbatim>\<open>src/App.jsx\<close> with payload \<^verbatim>\<open>{color: "#fff"}\<close>, followed at once by
  \<^verbatim>\<open>flush()\<close>, makes exactly one call to the submission callback, and the prompt of that
  call contains \<^verbatim>\<open>src/App.jsx\<close> and \<^verbatim>\<open>color: #fff\<close>. Whatever the environment does
  afterwards (timeouts expiring, the submission settling), the log of calls stays that
  one call.
\<close>

theorem C6_queue_then_flush:
  assumes c: "ctype c = ''style''" "elementId c = ''btn-1''" "cfile c = ''src/App.jsx''"
             "change c = [(''color'', JStr ''#fff'')]"
    and tr: "list_all is_env tr"
    and r: "run (QueueChange c now # Flush # tr) (new_engine p e) = Some w"
  shows "\<exists>prompt. sendCalls w = [prompt] \<and> js_includes prompt ''src/App.jsx''
           \<and> js_includes prompt ''color: #fff''"
proof -
  let ?w1 = "flush (queueChange c now (new_engine p e))"
  let ?prompt = "buildPrompt [(cfile c, [c\<lparr>timestamp := now\<rparr>])]"
  from r have r': "run tr ?w1 = Some w" by simp
  have sc: "sendCalls w = [?prompt]"
    using env_run_quiet[OF tr flush_after_queue(2) r'] flush_after_queue(1) by simp
  have p1: "?prompt = (''Apply the following design changes to the code:'' @ [CHR 0x0A, CHR 0x0A]
                 @ ''## File: '') @ ''src/App.jsx'' @
               ([CHR 0x0A, CHR 0x0A] @ ''- '' @ describeChange (c\<lparr>timestamp := now\<rparr>) @ [CHR 0x0A, CHR 0x0A]
                 @ ''Return the updated code using the boltArtifact format. Only include files that changed.'')"
    using c by (simp add: buildPrompt_def)
  have d: "describeChange (c\<lparr>timestamp := now\<rparr>)
        = (''Change styles of '' @ dq @ elementRef (c\<lparr>timestamp := now\<rparr>) @ dq @ '' to: '') @ ''color: #fff'' @ []"
    using c by (simp add: describeChange_def)
  have i1: "js_includes ?prompt ''src/App.jsx''"
    by (subst p1) (rule js_includes_append)
  have "js_includes (describeChange (c\<lparr>timestamp := now\<rparr>)) ''color: #fff''"
    by (subst d) (rule js_includes_append)
  then have i2: "js_includes ?prompt ''color: #fff''"
    by (subst p1) (simp add: js_includes_mono js_includes_mono[where a="[]", simplified])
  from sc i1 i2 show ?thesis by blast
qed

lemma js_includes_trans: "js_includes a b \<Longrightarrow> js_includes b c \<Longrightarrow> js_includes a c"
proof -
  assume "js_includes a b" "js_includes b c"
  then obtain u v u' v' where "a = u @ b @ v" "b = u' @ c @ v'"
    by (auto simp: js_includes_iff)
  then have "a = (u @ u') @ c @ (v' @ v)" by simp
  then show ?thesis by (metis js_includes_append)
qed

lemma js_join_includes: "x \<in> set xs \<Longrightarrow> js_includes (js_join sep xs) x"
proof (induction sep xs rule: js_join.induct)
  case (1 sep)
  then show ?case by simp
next
  case (2 sep y)
  then show ?case using js_includes_append[of "[]" x "[]"] by simp
next
  case (3 sep y z zs)
  show ?case
  proof (cases "x = y")
    case True
    then show ?thesis using js_includes_append[of "[]" x "sep @ js_join sep (z # zs)"] by simp
  next
    case False
    with 3 have "js_includes (js_join sep (z # zs)) x" by simp
    then have "js_includes ((y @ sep) @ js_join sep (z # zs) @ []) x" by (rule js_includes_mono)
    then show ?thesis by simp
  qed
qed

lemma map_set_keys: "distinct (map fst m) \<Longrightarrow> distinct (map fst (map_set m k v))"
  and map_set_fst: "fst ` set (map_set m k v) = insert k (fst ` set m)"
  by (induction m k v rule: map_set.induct) (auto simp: image_iff)

lemma map_set_new: "(k, v) \<in> set (map_set m k v)"
  by (induction m k v rule: map_set.induct) auto

lemma map_set_other: "(k', v') \<in> set m \<Longrightarrow> k' \<noteq> k \<Longrightarrow> (k', v') \<in> set (map_set m k v)"
  by (induction m k v rule: map_set.induct) auto

lemma group_keeps:
  "distinct (map fst g) \<Longrightarrow> (f, l) \<in> set g \<Longrightarrow> c \<in> set l
   \<Longrightarrow> \<exists>f l. (f, l) \<in> set (groupChangesByFile cs g) \<and> c \<in> set l"
proof (induction cs arbitrary: g f l)
  case Nil
  then show ?case by auto
next
  case (Cons d cs)
  let ?g = "map_set g (cfile d) ((case map_of g (cfile d) of Some existing \<Rightarrow> existing | None \<Rightarrow> []) @ [d])"
  have dist: "distinct (map fst ?g)" using Cons.prems(1) by (rule map_set_keys)
  have "\<exists>f' l'. (f', l') \<in> set ?g \<and> c \<in> set l'"
  proof (cases "f = cfile d")
    case True
    with Cons.prems have "map_of g (cfile d) = Some l" by simp
    then have "(cfile d, l @ [d]) \<in> set ?g" by (simp add: map_set_new)
    with Cons.prems(3) show ?thesis by force
  next
    case False
    with Cons.prems(2) have "(f, l) \<in> set ?g" by (simp add: map_set_other)
    with Cons.prems(3) show ?thesis by blast
  qed
  then obtain f' l' where "(f', l') \<in> set ?g" "c \<in> set l'" by blast
  from Cons.IH[OF dist this] show ?case by simp
qed

lemma group_mem:
  "distinct (map fst g) \<Longrightarrow> c \<in> set cs
   \<Longrightarrow> \<exists>f l. (f, l) \<in> set (groupChangesByFile cs g) \<and> c \<in> set l"
proof (induction cs arbitrary: g)
  case Nil
  then show ?case by simp
next
  case (Cons d cs)
  let ?g = "map_set g (cfile d) ((case map_of g (cfile d) of Some existing \<Rightarrow> existing | None \<Rightarrow> []) @ [d])"
  have dist: "distinct (map fst ?g)" using Cons.prems(1) by (rule map_set_keys)
  show ?case
  proof (cases "c = d")
    case True
    have "(cfile d, (case map_of g (cfile d) of Some existing \<Rightarrow> existing | None \<Rightarrow> []) @ [d]) \<in> set ?g"
      by (rule map_set_new)
    from group_keeps[OF dist this, of c cs] True show ?thesis by simp
  next
    case False
    with Cons.prems(2) have "c \<in> set cs" by simp
    from Cons.IH[OF dist this] show ?thesis by simp
  qed
qed

lemma buildPrompt_includes:
  assumes "(f, l) \<in> set g" "c \<in> set l"
  shows "js_includes (buildPrompt g) (describeChange c)"
proof -
  let ?line = "''- '' @ describeChange c"
  have "?line \<in> set (concat (map (\<lambda>(f, changes).
              [''## File: '' @ f, []] @ map (\<lambda>c. ''- '' @ describeChange c) changes @ [[]]) g))"
    using assms by force
  then have "js_includes (buildPrompt g) ?line"
    unfolding buildPrompt_def by (intro js_join_includes) simp
  moreover have "js_includes ?line (describeChange c)"
    using js_includes_append[of "''- ''" "describeChange c" "[]"] by simp
  ultimately show ?thesis by (rule js_includes_trans)
qed

lemma processChanges_idle:
  "\<not> isProcessing w \<Longrightarrow> pendingChanges w \<noteq> [] \<Longrightarrow>
   pendingChanges (processChanges w) = []
   \<and> suspended (processChanges w) = suspended w @ [pendingChanges w]
   \<and> sendCalls (processChanges w) = sendCalls w @ [buildPrompt (groupChangesByFile (pendingChanges w) [])]"
  by (simp add: processChanges_def Let_def)

lemma processChanges_busy: "isProcessing w \<Longrightarrow> processChanges w = w"
  by (simp add: processChanges_def)




text \<open>
  Claim C9 as stated fails: a content change whose payload has neither a \<^verbatim>\<open>text\<close> nor
  a \<^verbatim>\<open>content\<close> key is described as a content change of \<^verbatim>\<open>"undefined"\<close>, not by the
  generic description.
\<close>

theorem C9_counterexample:
  "describeChange \<lparr>ctype = ''content'', elementId = ''el'', cfile = ''src/App.jsx'',
       component = None, change = [], timestamp = 0\<rparr>
   = ''Change content of '' @ dq @ ''el'' @ dq @ '' to: '' @ dq @ ''undefined'' @ dq
   \<and> genericDescription \<lparr>ctype = ''content'', elementId = ''el'', cfile = ''src/App.jsx'',
       component = None, change = [], timestamp = 0\<rparr>
   = ''Update '' @ dq @ ''el'' @ dq @ '': {}''
   \<and> describeChange \<lparr>ctype = ''content'', elementId = ''el'', cfile = ''src/App.jsx'',
       component = None, change = [], timestamp = 0\<rparr>
   \<noteq> genericDescription \<lparr>ctype = ''content'', elementId = ''el'', cfile = ''src/App.jsx'',
       component = None, change = [], timestamp = 0\<rparr>"
  by (simp add: describeChange_def genericDescription_def elementRef_def get_prop_def js_or_def
      JSON_stringify_def dq_def)

text \<open>
  Claim C9, as amended. A change of a declared type whose payload lacks the keys that
  type expects is described by the template of its own type, the missing value printed
  as \<^verbatim>\<open>undefined\<close> (content, move target) or replaced by the default (\<^verbatim>\<open>inside\<close>,
  \<^verbatim>\<open>element\<close>); \<open>describeChange\<close> is a total function, so nothing is thrown. The generic
  description is what a change gets exactly when its type is none of the six declared
  ones.
\<close>

theorem C9_missing_keys:
  "(ctype c = ''content'' \<and> map_of (change c) ''text'' = None \<and> map_of (change c) ''content'' = None
      \<longrightarrow> describeChange c
            = ''Change content of '' @ dq @ elementRef c @ dq @ '' to: '' @ dq @ ''undefined'' @ dq)
   \<and> (ctype c = ''move'' \<and> map_of (change c) ''target'' = None \<and> map_of (change c) ''position'' = None
      \<longrightarrow> describeChange c
            = ''Move '' @ dq @ elementRef c @ dq @ '' inside '' @ dq @ ''undefined'' @ dq)
   \<and> (ctype c = ''add'' \<and> map_of (change c) ''type'' = None
      \<longrightarrow> describeChange c = ''Add new element inside '' @ dq @ elementRef c @ dq)
   \<and> (ctype c \<in> set declared_types \<longrightarrow> describeChange c \<noteq> genericDescription c)
   \<and> (ctype c \<notin> set declared_types \<longrightarrow> describeChange c = genericDescription c)"
  by (auto simp add: describeChange_def genericDescription_def declared_types_def get_prop_def
      js_or_def dq_def)

subsection \<open>The theorems at concrete engines\<close>

lemma busy_engine_eq:
  "busy_engine = \<lparr>pendingChanges = [], debounceTimer = None, isProcessing = True,
      hasInstantPreview = False, hasOnError = False,
      timers = [], nextHandle = 2, suspended = [[ch1\<lparr>timestamp := 1\<rparr>]],
      sendCalls = [buildPrompt [(''src/App.jsx'', [ch1\<lparr>timestamp := 1\<rparr>])]],
      previewCalls = [], errorCalls = 0\<rparr>"
  by (simp add: busy_engine_def flush_def processChanges_def Let_def new_engine_def
        queueChange_def clearDebounce_def ch1_def)

lemma busy_engine_reachable: "reachable False False busy_engine"
proof -
  have "run [QueueChange ch1 1, Flush] (new_engine False False) = Some busy_engine"
    by (simp add: busy_engine_def)
  then show ?thesis
    using reachable_run[OF reachable.init] by blast
qed


theorem C9_missing_keys_witness:
  "describeChange (ch2\<lparr>change := []\<rparr>)
     = ''Change content of '' @ dq @ ''title'' @ dq @ '' to: '' @ dq @ ''undefined'' @ dq
   \<and> describeChange (ch2\<lparr>ctype := ''move'', change := []\<rparr>)
     = ''Move '' @ dq @ ''title'' @ dq @ '' inside '' @ dq @ ''undefined'' @ dq
   \<and> describeChange (ch2\<lparr>ctype := ''add'', change := []\<rparr>)
     = ''Add new element inside '' @ dq @ ''title'' @ dq
   \<and> describeChange (ch2\<lparr>change := []\<rparr>) \<noteq> genericDescription (ch2\<lparr>change := []\<rparr>)
   \<and> describeChange (ch2\<lparr>ctype := ''resize'', change := []\<rparr>)
     = genericDescription (ch2\<lparr>ctype := ''resize'', change := []\<rparr>)"
proof -
  have a: "ctype (ch2\<lparr>change := []\<rparr>) = ''content''" "change (ch2\<lparr>change := []\<rparr>) = []"
     "elementRef (ch2\<lparr>change := []\<rparr>) = ''title''"
     "ctype (ch2\<lparr>change := []\<rparr>) \<in> set declared_types"
    by (simp_all add: ch2_def elementRef_def declared_types_def)
  have b: "ctype (ch2\<lparr>ctype := ''move'', change := []\<rparr>) = ''move''"
     "change (ch2\<lparr>ctype := ''move'', change := []\<rparr>) = []"
     "elementRef (ch2\<lparr>ctype := ''move'', change := []\<rparr>) = ''title''"
    by (simp_all add: ch2_def elementRef_def)
  have c: "ctype (ch2\<lparr>ctype := ''add'', change := []\<rparr>) = ''add''"
     "change (ch2\<lparr>ctype := ''add'', change := []\<rparr>) = []"
     "elementRef (ch2\<lparr>ctype := ''add'', change := []\<rparr>) = ''title''"
    by (simp_all add: ch2_def elementRef_def)
  have d: "ctype (ch2\<lparr>ctype := ''resize'', change := []\<rparr>) \<notin> set declared_types"
    by (simp add: declared_types_def)
  have 1: "describeChange (ch2\<lparr>change := []\<rparr>)
     = ''Change content of '' @ dq @ ''title'' @ dq @ '' to: '' @ dq @ ''undefined'' @ dq"
    using C9_missing_keys[of "ch2\<lparr>change := []\<rparr>"] a by simp
  have 2: "describeChange (ch2\<lparr>ctype := ''move'', change := []\<rparr>)
     = ''Move '' @ dq @ ''title'' @ dq @ '' inside '' @ dq @ ''undefined'' @ dq"
    using C9_missing_keys[of "ch2\<lparr>ctype := ''move'', change := []\<rparr>"] b by simp
  have 3: "describeChange (ch2\<lparr>ctype := ''add'', change := []\<rparr>)
     = ''Add new element inside '' @ dq @ ''title'' @ dq"
    using C9_missing_keys[of "ch2\<lparr>ctype := ''add'', change := []\<rparr>"] c by simp
  have 4: "describeChange (ch2\<lparr>change := []\<rparr>) \<noteq> genericDescription (ch2\<lparr>change := []\<rparr>)"
    using C9_missing_keys[of "ch2\<lparr>change := []\<rparr>"] a(4) by blast
  have 5: "describeChange (ch2\<lparr>ctype := ''resize'', change := []\<rparr>)
     = genericDescription (ch2\<lparr>ctype := ''resize'', change := []\<rparr>)"
    using C9_missing_keys[of "ch2\<lparr>ctype := ''resize'', change := []\<rparr>"] d by blast
  from 1 2 3 4 5 show ?thesis by blast
qed

lemma busy2_fields:
  "isProcessing (queueChange ch2 2 busy_engine)"
  "timers (queueChange ch2 2 busy_engine) = [2]"
  "suspended (queueChange ch2 2 busy_engine) = [[ch1\<lparr>timestamp := 1\<rparr>]]"
  by (simp_all add: busy_engine_eq queueChange_def Let_def clearDebounce_def ch2_def)

theorem C5_single_flight_witness:
  "reachable False False (queueChange ch2 2 busy_engine)
   \<and> length (suspended (queueChange ch2 2 busy_engine)) \<le> 1
   \<and> getIsProcessing (queueChange ch2 2 busy_engine)
   \<and> sendCalls (flush (queueChange ch2 2 busy_engine)) = sendCalls (queueChange ch2 2 busy_engine)
   \<and> step (TimerFire 2) (queueChange ch2 2 busy_engine)
       = Some (processChanges (queueChange ch2 2 busy_engine\<lparr>timers := []\<rparr>))
   \<and> sendCalls (processChanges (queueChange ch2 2 busy_engine\<lparr>timers := []\<rparr>))
       = sendCalls (queueChange ch2 2 busy_engine)
   \<and> step (Settle 0 True) (queueChange ch2 2 busy_engine)
       = Some (resumeProcess 0 True (queueChange ch2 2 busy_engine))
   \<and> suspended (resumeProcess 0 True (queueChange ch2 2 busy_engine)) = []
   \<and> run [QueueChange ch1 1, Flush, QueueChange ch2 2] (new_engine False False)
       = Some (queueChange ch2 2 busy_engine)
   \<and> Clear \<notin> set [QueueChange ch1 1, Flush, QueueChange ch2 2]
   \<and> (\<exists>bs. sendCalls (queueChange ch2 2 busy_engine) = map batch_prompt bs \<and> [] \<notin> set bs
         \<and> concat bs @ pendingChanges (queueChange ch2 2 busy_engine)
             = [ch1\<lparr>timestamp := 1\<rparr>, ch2\<lparr>timestamp := 2\<rparr>]
         \<and> suspended (queueChange ch2 2 busy_engine) = [last bs])
   \<and> reachable False False (queueChange ch1 1 (new_engine False False))
   \<and> \<not> getIsProcessing (queueChange ch1 1 (new_engine False False))
   \<and> pendingChanges (queueChange ch1 1 (new_engine False False)) = [ch1\<lparr>timestamp := 1\<rparr>]
   \<and> sendCalls (flush (queueChange ch1 1 (new_engine False False)))
       = [batch_prompt [ch1\<lparr>timestamp := 1\<rparr>]]
   \<and> suspended (flush (queueChange ch1 1 (new_engine False False))) = [[ch1\<lparr>timestamp := 1\<rparr>]]
   \<and> pendingChanges (flush (queueChange ch1 1 (new_engine False False))) = []"
proof -
  let ?B = "queueChange ch2 2 busy_engine"
  let ?I = "queueChange ch1 1 (new_engine False False)"
  have r: "run [QueueChange ch1 1, Flush, QueueChange ch2 2] (new_engine False False) = Some ?B"
    by (simp add: busy_engine_def)
  have h1: "reachable False False ?B"
    using reachable_run[OF reachable.init r] .
  have h2: "getIsProcessing ?B"
    by (simp add: getIsProcessing_def busy_engine_eq)
  have h3: "step (TimerFire 2) ?B = Some (processChanges (?B\<lparr>timers := []\<rparr>))"
    by (simp add: busy2_fields(2))
  have h4: "step (Settle 0 True) ?B = Some (resumeProcess 0 True ?B)"
    by (simp add: busy_engine_eq)
  have h5: "Clear \<notin> set [QueueChange ch1 1, Flush, QueueChange ch2 2]" by simp
  have q: "queued [QueueChange ch1 1, Flush, QueueChange ch2 2]
      = [ch1\<lparr>timestamp := 1\<rparr>, ch2\<lparr>timestamp := 2\<rparr>]" by simp
  note t = C5_single_flight[OF h1]
  note t1 = t[THEN conjunct1]
  note t2 = t[THEN conjunct2, THEN conjunct1, rule_format, OF h2]
  note t3 = t[THEN conjunct2, THEN conjunct2, THEN conjunct1, rule_format, OF h4]
  note t6 = t[THEN conjunct2, THEN conjunct2, THEN conjunct2, THEN conjunct2, THEN conjunct2,
      rule_format, OF r]
  have c2: "sendCalls (flush ?B) = sendCalls ?B" using t2 by (rule conjunct1)
  have c3: "sendCalls (processChanges (?B\<lparr>timers := []\<rparr>)) = sendCalls ?B"
    using t2[THEN conjunct2, THEN conjunct2, THEN conjunct2, rule_format, OF h3] by (rule conjunct1)
  have c4: "suspended (resumeProcess 0 True ?B) = []"
    using t3 by blast
  from t6 obtain bs where bs: "sendCalls ?B = map batch_prompt bs" "[] \<notin> set bs"
      "Clear \<notin> set [QueueChange ch1 1, Flush, QueueChange ch2 2]
         \<longrightarrow> concat bs @ pendingChanges ?B = queued [QueueChange ch1 1, Flush, QueueChange ch2 2]"
      "getIsProcessing ?B \<longrightarrow> bs \<noteq> [] \<and> suspended ?B = [last bs]"
    by blast
  from bs(3) h5 q have b3: "concat bs @ pendingChanges ?B
      = [ch1\<lparr>timestamp := 1\<rparr>, ch2\<lparr>timestamp := 2\<rparr>]" by simp
  from bs(4) h2 have b4: "suspended ?B = [last bs]" by blast
  from bs(1,2) b3 b4 have c6: "\<exists>bs. sendCalls ?B = map batch_prompt bs \<and> [] \<notin> set bs
         \<and> concat bs @ pendingChanges ?B = [ch1\<lparr>timestamp := 1\<rparr>, ch2\<lparr>timestamp := 2\<rparr>]
         \<and> suspended ?B = [last bs]" by blast
  have "run [QueueChange ch1 1] (new_engine False False) = Some ?I" by simp
  then have i1: "reachable False False ?I" using reachable_run[OF reachable.init] by blast
  have i2: "\<not> getIsProcessing ?I" by (simp add: getIsProcessing_def new_engine_def)
  have i3: "pendingChanges ?I = [ch1\<lparr>timestamp := 1\<rparr>]" by (simp add: new_engine_def)
  have i4: "sendCalls ?I = []" by (simp add: new_engine_def)
  have i5: "\<not> getIsProcessing ?I \<and> pendingChanges ?I \<noteq> []" using i2 i3 by simp
  note u = C5_single_flight[OF i1, THEN conjunct2, THEN conjunct2, THEN conjunct2, THEN conjunct1,
      rule_format, OF i5]
  have d1: "sendCalls (flush ?I) = [batch_prompt [ch1\<lparr>timestamp := 1\<rparr>]]"
    using u[THEN conjunct1] i3 i4 by simp
  have d2: "suspended (flush ?I) = [[ch1\<lparr>timestamp := 1\<rparr>]]"
    using u[THEN conjunct2, THEN conjunct1] i3 by simp
  have d3: "pendingChanges (flush ?I) = []"
    using u[THEN conjunct2, THEN conjunct2, THEN conjunct1] .
  show ?thesis
    using h1 t1 h2 c2 h3 c3 h4 c4 r h5 c6 i1 i2 i3 d1 d2 d3 by (intro conjI)
qed

theorem C6_queue_then_flush_witness:
  "ctype ch1 = ''style'' \<and> elementId ch1 = ''btn-1'' \<and> cfile ch1 = ''src/App.jsx''
   \<and> change ch1 = [(''color'', JStr ''#fff'')]
   \<and> list_all is_env [Settle 0 True]
   \<and> run [QueueChange ch1 1, Flush, Settle 0 True] (new_engine True True)
       = Some (resumeProcess 0 True (flush (queueChange ch1 1 (new_engine True True))))
   \<and> (\<exists>prompt. sendCalls (resumeProcess 0 True (flush (queueChange ch1 1 (new_engine True True))))
          = [prompt]
        \<and> js_includes prompt ''src/App.jsx'' \<and> js_includes prompt ''color: #fff'')"
proof -
  have c: "ctype ch1 = ''style''" "elementId ch1 = ''btn-1''" "cfile ch1 = ''src/App.jsx''"
    "change ch1 = [(''color'', JStr ''#fff'')]"
    by (simp_all add: ch1_def)
  have h1: "list_all is_env [Settle 0 True]" by (simp add: is_env_def)
  have h2: "run [QueueChange ch1 1, Flush, Settle 0 True] (new_engine True True)
       = Some (resumeProcess 0 True (flush (queueChange ch1 1 (new_engine True True))))"
    by (simp add: flush_def processChanges_def Let_def new_engine_def)
  note t = C6_queue_then_flush[OF c h1 h2]
  from c h1 h2 t show ?thesis by blast
qed

section \<open>Properties of the file tree\<close>

text \<open>
  Claim C1 says that flattening the tree returned for a file map gives back the keys of
  the map. On the map with the single key \<^verbatim>\<open>src/App.tsx\<close> the function returns one root,
  the folder \<^verbatim>\<open>src\<close>, whose \<^verbatim>\<open>children\<close> array is empty: the file node was put into the
  map object \<^verbatim>\<open>nextLevel\<close> after \<^verbatim>\<open>folder.children\<close> had been assigned the values of that
  map, so the folder never refers to it. The traversal of the returned tree finds no
  file at all.
\<close>

theorem C1_nested_file_lost:
  "fileMapToTree [(''src/App.tsx'', ''x'')]
     = Some ([0],
         \<lparr>nodes = [\<lparr>name = ''src'', ntype = Folder, path = ''src'', children = Some [],
                     content = None\<rparr>,
                   \<lparr>name = ''App.tsx'', ntype = File, path = ''src/App.tsx'', children = None,
                     content = Some ''x''\<rparr>],
          maps = [[(''src'', 0)], [(''App.tsx'', 1)]]\<rparr>)
   \<and> file_paths 3
         \<lparr>nodes = [\<lparr>name = ''src'', ntype = Folder, path = ''src'', children = Some [],
                     content = None\<rparr>,
                   \<lparr>name = ''App.tsx'', ntype = File, path = ''src/App.tsx'', children = None,
                     content = Some ''x''\<rparr>],
          maps = [[(''src'', 0)], [(''App.tsx'', 1)]]\<rparr> [0] = []
   \<and> set (file_paths 3
         \<lparr>nodes = [\<lparr>name = ''src'', ntype = Folder, path = ''src'', children = Some [],
                     content = None\<rparr>,
                   \<lparr>name = ''App.tsx'', ntype = File, path = ''src/App.tsx'', children = None,
                     content = Some ''x''\<rparr>],
          maps = [[(''src'', 0)], [(''App.tsx'', 1)]]\<rparr> [0])
       \<noteq> set (map fst [(''src/App.tsx'', ''x'')])"
  by (simp add: fileMapToTree_def js_split_def deref_def Let_def numeral_3_eq_3)

section \<open>Properties of the matcher and the parser\<close>

lemma bt_length: "bt ci k s c = Some (c', r) \<Longrightarrow> length r \<le> length s"
proof (induction ci k s c arbitrary: c' r rule: bt.induct)
  case (3 ci a k x xs c)
  then show ?case by (auto split: if_splits intro: le_SucI)
next
  case (5 ci p k x xs c)
  then show ?case by (auto split: if_splits intro: le_SucI)
next
  case (7 ci g n p k x xs c)
  then show ?case by (auto split: if_splits intro: le_SucI)
next
  case (9 ci p k x xs c)
  show ?case
  proof (cases "p x")
    case True
    note px = this
    show ?thesis
    proof (cases "bt ci (Rep True 0 p # k) xs c")
      case None
      with px 9 show ?thesis by simp
    next
      case (Some m)
      with px 9(4) have "m = (c', r)" by simp
      with 9(1)[OF px] Some have "length r \<le> length xs" by simp
      then show ?thesis by simp
    qed
  next
    case False
    with 9 show ?thesis by simp
  qed
next
  case (11 ci p k x xs c)
  show ?case
  proof (cases "bt ci k (x # xs) c")
    case None
    with 11 show ?thesis by (auto split: if_splits intro: le_SucI)
  next
    case (Some m)
    with 11 show ?thesis by simp
  qed
next
  case (12 ci r0 k s c)
  then show ?case by (cases "bt ci (r0 @ k) s c") auto
next
  case (14 ci r0 rs k s c)
  then show ?case by (cases "bt ci (r0 @ k) s c") auto
next
  case (16 ci n s0 k s c)
  from "16.prems" have "bt ci k s (c(n \<mapsto> take (length s0 - length s) s0)) = Some (c', r)"
    by (simp only: bt.simps)
  then show ?case by (rule "16.IH")
qed simp_all

lemma bt_Lit_shorter: "bt ci (Lit a # k) s c = Some (c', r) \<Longrightarrow> length r < length s"
  by (cases s) (auto split: if_splits dest: bt_length)

lemma consuming_Lit: "consuming ci (Lit a # k)"
  unfolding consuming_def using bt_Lit_shorter by blast

lemma scan_result:
  "scan ci pat s = Some (s', c, r) \<Longrightarrow>
     bt ci pat s' Map.empty = Some (c, r) \<and> length s' \<le> length s \<and> length r \<le> length s'"
proof (induction s)
  case Nil
  then show ?case by (auto split: option.splits dest: bt_length)
next
  case (Cons x xs)
  then show ?case by (auto split: option.splits dest: bt_length)
qed

lemma exec_bounds:
  assumes "consuming ci pat" "exec ci pat text li = (Some m, li')"
  shows "li < li' \<and> li' \<le> length text"
proof -
  from assms(2) have le: "li \<le> length text"
    by (auto simp: exec_def split: if_splits)
  from assms(2) le obtain s c r where sc: "scan ci pat (drop li text) = Some (s, c, r)"
    and li': "li' = length text - length r"
    by (auto simp: exec_def split: if_splits option.splits)
  from scan_result[OF sc] have b: "bt ci pat s Map.empty = Some (c, r)"
    and l1: "length s \<le> length text - li" and l2: "length r \<le> length s" by auto
  from assms(1) b have "length r < length s" unfolding consuming_def by blast
  with l1 l2 li' le show ?thesis by auto
qed

lemma exec_None: "exec ci pat text li = (None, li') \<Longrightarrow> li' = 0"
  by (auto simp: exec_def split: if_splits option.splits)

lemma exec_loop_total:
  assumes "consuming ci pat"
  shows "\<exists>acc'. exec_loop ci pat text body li acc = Some (acc', 0)"
proof (induction "length text - li" arbitrary: li acc rule: less_induct)
  case less
  show ?case
  proof (cases "exec ci pat text li")
    case (Pair mo li')
    show ?thesis
    proof (cases mo)
      case None
      with Pair have "li' = 0" using exec_None by blast
      with Pair None show ?thesis
        by (subst exec_loop.simps) simp
    next
      case (Some m)
      with Pair exec_bounds[OF assms] have "li < li'" "li' \<le> length text" by blast+
      then have "length text - li' < length text - li" by simp
      from less[OF this] obtain acc' where
        "exec_loop ci pat text body li' (body m acc) = Some (acc', 0)" by blast
      with Pair Some show ?thesis
        by (subst exec_loop.simps) simp
    qed
  qed
qed

lemma boltAction_consuming: "consuming True boltAction_rx"
  by (simp add: boltAction_rx_def lit_def consuming_Lit)

text \<open>
  Claim C7. \<^verbatim>\<open>parseStreamingArtifact\<close> is idempotent: whatever the cursors of the shared
  regular expressions are when it is called, it returns; a second call on the same text,
  made in the state the first call left, returns the same files and commands; and the
  second call leaves the state as it found it.
\<close>

theorem C7_streaming_idempotent:
  "\<exists>a P1. parseStreamingArtifact text P = Some (a, P1)
        \<and> parseStreamingArtifact text P1 = Some (a, P1)"
proof -
  obtain acc where "exec_loop True boltAction_rx text action_body 0 ([], []) = Some (acc, 0)"
    using exec_loop_total[OF boltAction_consuming, of "text" action_body 0 "([], [])"] by blast
  then show ?thesis
    by (simp add: parseStreamingArtifact_def)
qed

lemma bt_rep_greedy_end:
  "bt ci [Rep True n p] s c
     = (if n \<le> length (takeWhile p s) then Some (c, dropWhile p s) else None)"
proof (induction s arbitrary: n)
  case Nil
  show ?case by (cases n) simp_all
next
  case (Cons x xs)
  show ?case
  proof (cases n)
    case 0
    with Cons[of 0] show ?thesis by simp
  next
    case (Suc m)
    with Cons[of m] show ?thesis by simp
  qed
qed

lemma replace_newlines_short:
  assumes "list_all (is_chr CHR 0x0A) u" "length u < 3" "rest = [] \<or> hd rest \<noteq> CHR 0x0A"
  shows "replace_all False newlines_rx rep (u @ rest) = u @ replace_all False newlines_rx rep rest"
  using assms
proof (induction u)
  case Nil
  then show ?case by simp
next
  case (Cons a u)
  from Cons.prems have a: "a = CHR 0x0A" by (simp add: is_chr_def)
  from Cons.prems have r: "list_all (is_chr CHR 0x0A) u" "length u < 3" by simp_all
  have tw: "takeWhile (is_chr CHR 0x0A) (a # u @ rest) = a # u"
    using Cons.prems a r by (cases rest) (auto simp: is_chr_def list_all_iff takeWhile_append2)
  have "bt False newlines_rx (a # u @ rest) Map.empty = None"
    unfolding newlines_rx_def bt_rep_greedy_end tw using Cons.prems(2) by simp
  then have "replace_all False newlines_rx rep ((a # u) @ rest)
        = a # replace_all False newlines_rx rep (u @ rest)"
    by (subst replace_all.simps) simp
  with Cons.IH[OF r Cons.prems(3)] show ?case by simp
qed

lemma replace_newlines_collapse:
  "replace_all False newlines_rx [CHR 0x0A, CHR 0x0A] s = collapse_runs s"
proof (induction s rule: collapse_runs.induct)
  case 1
  show ?case by (subst replace_all.simps) (simp add: newlines_rx_def bt_rep_greedy_end)
next
  case (2 x xs)
  show ?case
  proof (cases "x = CHR 0x0A")
    case False
    then have "bt False newlines_rx (x # xs) Map.empty = None"
      by (simp add: newlines_rx_def bt_rep_greedy_end is_chr_def)
    then have "replace_all False newlines_rx [CHR 0x0A, CHR 0x0A] (x # xs)
        = x # replace_all False newlines_rx [CHR 0x0A, CHR 0x0A] xs"
      by (subst replace_all.simps) simp
    with False 2 show ?thesis by simp
  next
    case True
    let ?u = "takeWhile (is_chr CHR 0x0A) (x # xs)"
    let ?rest = "dropWhile (is_chr CHR 0x0A) (x # xs)"
    have split: "x # xs = ?u @ ?rest" by simp
    have shorter: "length ?rest < length (x # xs)"
      using True by (auto simp: is_chr_def intro: le_imp_less_Suc length_dropWhile_le)
    have IH: "replace_all False newlines_rx [CHR 0x0A, CHR 0x0A] ?rest = collapse_runs ?rest"
      using 2(2)[OF _] True by simp
    show ?thesis
    proof (cases "3 \<le> length ?u")
      case long: True
      have "bt False newlines_rx (x # xs) Map.empty = Some (Map.empty, ?rest)"
        unfolding newlines_rx_def bt_rep_greedy_end using long by simp
      then have "replace_all False newlines_rx [CHR 0x0A, CHR 0x0A] (x # xs)
          = [CHR 0x0A, CHR 0x0A] @ replace_all False newlines_rx [CHR 0x0A, CHR 0x0A] ?rest"
        using shorter by (subst replace_all.simps) simp
      with IH long True show ?thesis by simp
    next
      case short: False
      have h: "?rest = [] \<or> hd ?rest \<noteq> CHR 0x0A"
      proof (cases "?rest = []")
        case False
        then have "\<not> is_chr CHR 0x0A (hd ?rest)" by (rule hd_dropWhile)
        then show ?thesis by (simp add: is_chr_def)
      qed simp
      have "list_all (is_chr CHR 0x0A) ?u"
        by (simp add: list_all_iff) (meson set_takeWhileD)
      from replace_newlines_short[OF this _ h, of "[CHR 0x0A, CHR 0x0A]"] short
      have "replace_all False newlines_rx [CHR 0x0A, CHR 0x0A] (?u @ ?rest)
          = ?u @ replace_all False newlines_rx [CHR 0x0A, CHR 0x0A] ?rest" by simp
      with IH short True split show ?thesis by simp
    qed
  qed
qed

lemma bt_suffix: "bt ci k s c = Some (c', r) \<Longrightarrow> suffix r s"
proof (induction ci k s c arbitrary: c' r rule: bt.induct)
  case (3 ci a k x xs c)
  then show ?case by (auto split: if_splits intro: suffix_ConsI)
next
  case (5 ci p k x xs c)
  then show ?case by (auto split: if_splits intro: suffix_ConsI)
next
  case (7 ci g n p k x xs c)
  then show ?case by (auto split: if_splits intro: suffix_ConsI)
next
  case (9 ci p k x xs c)
  show ?case
  proof (cases "p x")
    case True
    note px = this
    show ?thesis
    proof (cases "bt ci (Rep True 0 p # k) xs c")
      case None
      with px 9 show ?thesis by simp
    next
      case (Some m)
      with px 9(4) have "m = (c', r)" by simp
      with 9(1)[OF px] Some have "suffix r xs" by simp
      then show ?thesis by (rule suffix_ConsI)
    qed
  next
    case False
    with 9 show ?thesis by simp
  qed
next
  case (11 ci p k x xs c)
  show ?case
  proof (cases "bt ci k (x # xs) c")
    case None
    with 11 show ?thesis by (auto split: if_splits intro: suffix_ConsI)
  next
    case (Some m)
    with 11 show ?thesis by simp
  qed
next
  case (12 ci r0 k s c)
  then show ?case by (cases "bt ci (r0 @ k) s c") auto
next
  case (14 ci r0 rs k s c)
  then show ?case by (cases "bt ci (r0 @ k) s c") auto
next
  case (16 ci n s0 k s c)
  from "16.prems" have "bt ci k s (c(n \<mapsto> take (length s0 - length s) s0)) = Some (c', r)"
    by (simp only: bt.simps)
  then show ?case by (rule "16.IH")
qed simp_all

lemma dead_Nil [simp]: "dead ci pat [] b"
  by (simp add: dead_def)

lemma dead_Cons [simp]:
  "dead ci pat (x # a) b \<longleftrightarrow> bt ci pat (x # a @ b) Map.empty = None \<and> dead ci pat a b"
proof
  assume d: "dead ci pat (x # a) b"
  then have "bt ci pat (drop 0 (x # a) @ b) Map.empty = None"
    unfolding dead_def by blast
  moreover have "dead ci pat a b"
    unfolding dead_def
  proof (intro allI impI)
    fix i assume "i < length a"
    then have "Suc i < length (x # a)" by simp
    with d have "bt ci pat (drop (Suc i) (x # a) @ b) Map.empty = None"
      unfolding dead_def by blast
    then show "bt ci pat (drop i a @ b) Map.empty = None" by simp
  qed
  ultimately show "bt ci pat (x # a @ b) Map.empty = None \<and> dead ci pat a b" by simp
next
  assume h: "bt ci pat (x # a @ b) Map.empty = None \<and> dead ci pat a b"
  show "dead ci pat (x # a) b"
    unfolding dead_def
  proof (intro allI impI)
    fix i assume "i < length (x # a)"
    then show "bt ci pat (drop i (x # a) @ b) Map.empty = None"
      using h by (cases i) (auto simp: dead_def)
  qed
qed

lemma dead_append [simp]:
  "dead ci pat (a1 @ a2) b \<longleftrightarrow> dead ci pat a1 (a2 @ b) \<and> dead ci pat a2 b"
  by (induction a1) auto

lemma dead_first:
  "\<forall>x \<in> set a. \<not> chr_eq ci l x \<Longrightarrow> dead ci (Lit l # k) a b"
  by (induction a) auto

lemma replace_all_dead:
  "dead ci pat a b \<Longrightarrow> replace_all ci pat rep (a @ b) = a @ replace_all ci pat rep b"
proof (induction a)
  case Nil
  then show ?case by simp
next
  case (Cons x a)
  then have "bt ci pat (x # a @ b) Map.empty = None" and d: "dead ci pat a b" by simp_all
  then have "replace_all ci pat rep ((x # a) @ b) = x # replace_all ci pat rep (a @ b)"
    by (subst replace_all.simps) simp
  with Cons.IH[OF d] show ?case by simp
qed

lemma replace_all_here:
  "bt ci pat s Map.empty = Some (c, r) \<Longrightarrow> length r < length s
   \<Longrightarrow> replace_all ci pat rep s = rep @ replace_all ci pat rep r"
  by (subst replace_all.simps) simp

lemma replace_all_Nil: "bt ci pat [] Map.empty = None \<Longrightarrow> replace_all ci pat rep [] = []"
  by (subst replace_all.simps) simp

lemma matches_dead: "dead ci pat a b \<Longrightarrow> matches ci pat (a @ b) = matches ci pat b"
proof (induction a)
  case Nil
  then show ?case by simp
next
  case (Cons x a)
  then have "bt ci pat (x # a @ b) Map.empty = None" and d: "dead ci pat a b" by simp_all
  then have "matches ci pat ((x # a) @ b) = matches ci pat (a @ b)"
    by (subst matches.simps) simp
  with Cons.IH[OF d] show ?case by simp
qed

lemma matches_here:
  "bt ci pat s Map.empty = Some (c, r) \<Longrightarrow> length r < length s
   \<Longrightarrow> matches ci pat s = c(0 \<mapsto> take (length s - length r) s) # matches ci pat r"
  by (subst matches.simps) simp

lemma matches_Nil: "bt ci pat [] Map.empty = None \<Longrightarrow> matches ci pat [] = []"
  by (subst matches.simps) simp

lemma scan_suffix:
  "scan ci pat s = Some (s', c, r) \<Longrightarrow>
     bt ci pat s' Map.empty = Some (c, r) \<and> suffix s' s \<and> suffix r s'"
proof (induction s)
  case Nil
  then show ?case by (auto split: option.splits dest: bt_suffix)
next
  case (Cons x xs)
  then show ?case by (auto split: option.splits dest: bt_suffix intro: suffix_ConsI)
qed

lemma matches_scan:
  assumes "consuming ci pat"
  shows "matches ci pat s =
     (case scan ci pat s of
        None \<Rightarrow> []
      | Some (s', c, r) \<Rightarrow> c(0 \<mapsto> take (length s' - length r) s') # matches ci pat r)"
proof (induction s)
  case Nil
  show ?case
  proof (cases "bt ci pat [] Map.empty")
    case None
    then show ?thesis by (subst matches.simps) simp
  next
    case (Some m)
    with assms show ?thesis unfolding consuming_def by (cases m) fastforce
  qed
next
  case (Cons x xs)
  show ?case
  proof (cases "bt ci pat (x # xs) Map.empty")
    case None
    with Cons show ?thesis by (subst matches.simps) simp
  next
    case (Some m)
    obtain c r where m: "m = (c, r)" by (cases m)
    with Some assms have "length r < length (x # xs)" unfolding consuming_def by blast
    with Some m show ?thesis by (subst matches.simps) simp
  qed
qed

lemma exec_loop_matches:
  assumes con: "consuming ci pat"
  shows "li \<le> length text \<Longrightarrow>
     exec_loop ci pat text body li acc = Some (fold body (matches ci pat (drop li text)) acc, 0)"
proof (induction "length text - li" arbitrary: li acc rule: less_induct)
  case less
  show ?case
  proof (cases "scan ci pat (drop li text)")
    case None
    then have "exec ci pat text li = (None, 0)" using less.prems by (simp add: exec_def)
    moreover have "matches ci pat (drop li text) = []"
      using None by (simp add: matches_scan[OF con])
    ultimately show ?thesis by (subst exec_loop.simps) simp
  next
    case (Some t)
    obtain s' c r where t: "t = (s', c, r)" by (cases t)
    let ?m = "c(0 \<mapsto> take (length s' - length r) s')"
    let ?li' = "length text - length r"
    from Some t have ex: "exec ci pat text li = (Some ?m, ?li')"
      using less.prems by (simp add: exec_def)
    from exec_bounds[OF con ex] have b: "li < ?li'" "?li' \<le> length text" by simp_all
    from scan_suffix[OF Some[unfolded t]] have "suffix r (drop li text)"
      using suffix_order.trans by blast
    then have "suffix r text" using suffix_drop suffix_order.trans by blast
    then obtain u where u: "text = u @ r" by (auto simp: suffix_def)
    then have dr: "drop ?li' text = r" by simp
    have ms: "matches ci pat (drop li text) = ?m # matches ci pat r"
      using Some t by (simp add: matches_scan[OF con])
    from b have "length text - ?li' < length text - li" by simp
    from less.hyps[OF this b(2), of "body ?m acc"] dr
    have "exec_loop ci pat text body ?li' (body ?m acc)
            = Some (fold body (matches ci pat r) (body ?m acc), 0)" by simp
    with ex ms show ?thesis by (subst exec_loop.simps) simp
  qed
qed

lemma chr_eq_refl [simp]: "chr_eq ci a a"
  by (simp add: chr_eq_def)

lemma to_upper_cases: "to_upper x = x \<or> to_upper x \<in> set upper_letters"
proof (cases "map_of (zip ''abcdefghijklmnopqrstuvwxyz'' ''ABCDEFGHIJKLMNOPQRSTUVWXYZ'') x")
  case None
  then show ?thesis by (simp add: to_upper_def)
next
  case (Some u)
  then have "(x, u) \<in> set (zip ''abcdefghijklmnopqrstuvwxyz'' ''ABCDEFGHIJKLMNOPQRSTUVWXYZ'')"
    by (rule map_of_SomeD)
  then have "u \<in> set upper_letters" unfolding upper_letters_def by (rule set_zip_rightD)
  with Some show ?thesis by (simp add: to_upper_def)
qed

text \<open>A character that is no letter matches only itself, with or without the i flag.\<close>

lemma chr_eq_no_letter: "no_letter a \<Longrightarrow> chr_eq ci a x \<longleftrightarrow> x = a"
  using to_upper_cases[of x] by (auto simp: chr_eq_def no_letter_def)

lemma no_letter_simps [simp]:
  "no_letter CHR ''<''" "no_letter CHR ''`''" "no_letter CHR 0x22" "no_letter CHR ''>''"
  "no_letter CHR '':''" "no_letter CHR 0x0A" "no_letter CHR ''/''" "no_letter CHR ''#''"
  by (simp_all add: no_letter_def to_upper_def upper_letters_def)

lemma bt_rep_greedy_commit:
  assumes "list_all p u" "v = [] \<or> \<not> p (hd v)" "n \<le> length u" "bt ci k v c \<noteq> None"
  shows "bt ci (Rep True n p # k) (u @ v) c = bt ci k v c"
  using assms
proof (induction u arbitrary: n)
  case Nil
  then show ?case by (cases v) auto
next
  case (Cons x u)
  from Cons.prems have px: "p x" and pu: "list_all p u" by simp_all
  show ?case
  proof (cases n)
    case 0
    from Cons.IH[OF pu Cons.prems(2) _ Cons.prems(4), of 0] Cons.prems(4) px 0
    show ?thesis by auto
  next
    case (Suc m)
    with Cons.prems have "m \<le> length u" by simp
    from Cons.IH[OF pu Cons.prems(2) this Cons.prems(4)] px Suc
    show ?thesis by simp
  qed
qed

lemma bt_rep_suc_none:
  "s = [] \<or> \<not> p (hd s) \<Longrightarrow> bt ci (Rep g (Suc n) p # k) s c = None"
  by (cases s) auto

lemma bt_rep_greedy_none:
  assumes "list_all p u" "v = [] \<or> \<not> p (hd v)"
    and "\<And>t. suffix t u \<Longrightarrow> bt ci k (t @ v) c = None"
  shows "bt ci (Rep True n p # k) (u @ v) c = None"
  using assms
proof (induction u arbitrary: n)
  case Nil
  from Nil(3)[of "[]"] have kv: "bt ci k v c = None" by simp
  show ?case
  proof (cases n)
    case 0
    with kv Nil(2) show ?thesis by (cases v) auto
  next
    case (Suc m)
    with Nil(2) show ?thesis by (simp add: bt_rep_suc_none)
  qed
next
  case (Cons x u)
  from Cons.prems have px: "p x" and pu: "list_all p u" by simp_all
  have tail: "\<And>t. suffix t u \<Longrightarrow> bt ci k (t @ v) c = None"
    using Cons.prems(3) by (simp add: suffix_ConsI)
  have here: "bt ci k ((x # u) @ v) c = None"
    using Cons.prems(3)[of "x # u"] by simp
  show ?case
  proof (cases n)
    case 0
    from Cons.IH[OF pu Cons.prems(2) tail, of 0] here px 0 show ?thesis by simp
  next
    case (Suc m)
    from Cons.IH[OF pu Cons.prems(2) tail, of m] px Suc show ?thesis by simp
  qed
qed

text \<open>A lazy repetition of any character passes over a stretch in which the next item,
  a literal character, cannot match.\<close>

lemma bt_lazy_skip:
  assumes "\<forall>y \<in> set u. \<not> chr_eq ci a y"
  shows "bt ci (Rep False 0 any_chr # CapEnd m s0 # Lit a # k) (u @ v) c
       = bt ci (Rep False 0 any_chr # CapEnd m s0 # Lit a # k) v c"
  using assms
proof (induction u)
  case Nil
  show ?case by simp
next
  case (Cons x u)
  then show ?case by (simp add: any_chr_def)
qed

lemma js_word_not: "\<not> js_word CHR ''`''" "\<not> js_word CHR 0x0A" "\<not> js_word CHR '':''"
  by (simp_all add: js_word_def)

lemma word_run:
  "list_all js_word lang \<Longrightarrow> \<forall>y \<in> set lang. y \<noteq> CHR ''`'' \<and> y \<noteq> CHR 0x0A \<and> y \<noteq> CHR '':''"
  using js_word_not by (auto simp: list_all_iff)

lemma md_match:
  assumes lang: "lang \<noteq> []" "list_all js_word lang" and b: "CHR ''`'' \<notin> set b"
  shows "bt False markdownBlock_rx (fence lang b @ rest) Map.empty
       = Some ([1 \<mapsto> lang, 2 \<mapsto> b], rest)"
proof -
  let ?s1 = "CHR 0x0A # b @ ''```'' @ rest"
  let ?s0 = "lang @ ?s1"
  let ?k2 = "[Cap 2 [Rep False 0 any_chr], Lit CHR ''`'', Lit CHR ''`'', Lit CHR ''`'']"
  have lazy: "bt False [Rep False 0 any_chr, CapEnd 2 (b @ ''```'' @ rest), Lit CHR ''`'', Lit CHR ''`'', Lit CHR ''`'']
                (b @ ''```'' @ rest) c
           = Some (c(2 \<mapsto> b), rest)" for c
    using b by (subst bt_lazy_skip) (auto simp: chr_eq_def)
  have k: "bt False (CapEnd 1 ?s0 # Lit CHR 0x0A # ?k2) ?s1 Map.empty = Some ([1 \<mapsto> lang, 2 \<mapsto> b], rest)"
    using lazy by simp
  have "bt False (Rep True 1 js_word # CapEnd 1 ?s0 # Lit CHR 0x0A # ?k2) (lang @ ?s1) Map.empty
       = bt False (CapEnd 1 ?s0 # Lit CHR 0x0A # ?k2) ?s1 Map.empty"
    using lang k by (intro bt_rep_greedy_commit) (auto simp: js_word_not Suc_le_eq)
  with k show ?thesis
    by (simp add: markdownBlock_rx_def fence_def lit_def chr_eq_def)
qed

lemma chr_eq_tick [simp]: "chr_eq ci CHR ''`'' x \<longleftrightarrow> x = CHR ''`''"
  by (simp add: chr_eq_no_letter)

lemma fence_close_dead:
  assumes "after_close s"
  shows "dead ci (Lit CHR ''`'' # Lit CHR ''`'' # Lit CHR ''`'' # Cap 1 [Rep True 1 js_word] # k) ''```'' s"
proof -
  consider "s = []" | x xs where "s = x # xs" "x \<noteq> CHR ''`''" "\<not> js_word x"
    | t where "s = ''```'' @ t"
    using assms unfolding after_close_def by (cases s) auto
  then show ?thesis
  proof cases
    case 1
    then show ?thesis by simp
  next
    case 2
    then show ?thesis by simp
  next
    case 3
    then show ?thesis by (simp add: js_word_not)
  qed
qed

lemma fence_open_inner_dead:
  assumes "lang_ok lang"
  shows "bt ci (Lit CHR ''`'' # Lit CHR ''`'' # Lit CHR ''`'' # k) (CHR ''`'' # CHR ''`'' # lang @ s) c = None"
    and "bt ci (Lit CHR ''`'' # Lit CHR ''`'' # Lit CHR ''`'' # k) (CHR ''`'' # lang @ s) c = None"
proof -
  from assms obtain x xs where l: "lang = x # xs" "js_word x"
    unfolding lang_ok_def by (cases lang) auto
  then have "x \<noteq> CHR ''`''" using js_word_not by auto
  with l show "bt ci (Lit CHR ''`'' # Lit CHR ''`'' # Lit CHR ''`'' # k) (CHR ''`'' # CHR ''`'' # lang @ s) c = None"
    and "bt ci (Lit CHR ''`'' # Lit CHR ''`'' # Lit CHR ''`'' # k) (CHR ''`'' # lang @ s) c = None"
    by simp_all
qed

lemma dead_no_tick:
  "CHR ''`'' \<notin> set a \<Longrightarrow> dead ci (Lit CHR ''`'' # k) a b"
  by (rule dead_first) auto

lemma cursor_open_none:
  assumes "lang_ok lang"
  shows "bt False cursorBlock_rx (fence lang b @ s) Map.empty = None"
proof -
  let ?v = "CHR 0x0A # b @ ''```'' @ s"
  let ?k = "[CapEnd 1 (lang @ ?v), Lit CHR '':'', Cap 2 [Rep True 1 (not_chr CHR 0x0A)], Lit CHR 0x0A,
             Cap 3 [Rep False 0 any_chr], Lit CHR ''`'', Lit CHR ''`'', Lit CHR ''`'']"
  have "bt False (Rep True 1 js_word # ?k) (lang @ ?v) Map.empty = None"
  proof (rule bt_rep_greedy_none)
    show "list_all js_word lang" using assms by (simp add: lang_ok_def)
    show "?v = [] \<or> \<not> js_word (hd ?v)" by (simp add: js_word_not)
    fix t assume "suffix t lang"
    then have "set t \<subseteq> set lang" by (rule set_mono_suffix)
    with assms word_run[of lang] have "\<forall>y \<in> set t. y \<noteq> CHR '':''" by (auto simp: lang_ok_def)
    then show "bt False ?k (t @ ?v) Map.empty = None"
      by (cases t) (auto simp: chr_eq_def)
  qed
  then show ?thesis
    by (simp add: cursorBlock_rx_def fence_def lit_def)
qed

lemma mdpath_open_none:
  assumes "lang_ok lang" "no_path_comment b"
  shows "bt True markdownWithPath_rx (fence lang b @ s) Map.empty = None"
proof -
  let ?w = "b @ ''```'' @ s"
  let ?v = "CHR 0x0A # ?w"
  let ?k' = "Alt [lit ''//'', lit ''#'', lit ''<!--''] # Rep True 0 js_space # lit ''filepath:''
            @ [Rep True 0 js_space, Cap 2 [Rep True 1 (not_chr CHR 0x0A)], Lit CHR 0x0A,
               Cap 3 [Rep False 0 any_chr]] @ lit ''```''"
  let ?k = "CapEnd 1 (lang @ ?v) # Lit CHR 0x0A # ?k'"
  have alt: "bt True ?k' ?w c = None" for c
  proof (cases b)
    case Nil
    then show ?thesis by (simp add: lit_def chr_eq_no_letter)
  next
    case (Cons y ys)
    with assms(2) have "y \<noteq> CHR ''/''" "y \<noteq> CHR ''#''" "y \<noteq> CHR ''<''"
      by (auto simp: no_path_comment_def)
    with Cons show ?thesis by (simp add: lit_def chr_eq_no_letter)
  qed
  have "bt True (Rep True 1 js_word # ?k) (lang @ ?v) Map.empty = None"
  proof (rule bt_rep_greedy_none)
    show "list_all js_word lang" using assms by (simp add: lang_ok_def)
    show "?v = [] \<or> \<not> js_word (hd ?v)" by (simp add: js_word_not)
    fix t assume "suffix t lang"
    then have "set t \<subseteq> set lang" by (rule set_mono_suffix)
    with assms word_run[of lang] have "\<forall>y \<in> set t. y \<noteq> CHR 0x0A" by (auto simp: lang_ok_def)
    then show "bt True ?k (t @ ?v) Map.empty = None"
      using alt by (cases t) (auto simp: chr_eq_no_letter)
  qed
  then show ?thesis
    by (simp add: markdownWithPath_rx_def fence_def lit_def)
qed

lemma pre_ci_Nil [simp]: "pre_ci ci [] s"
  by (simp add: pre_ci_def)

lemma pre_ci_Cons_Nil [simp]: "\<not> pre_ci ci (a # L) []"
  by (simp add: pre_ci_def)

lemma pre_ci_Cons_Cons [simp]:
  "pre_ci ci (a # L) (x # xs) \<longleftrightarrow> chr_eq ci a x \<and> pre_ci ci L xs"
  by (auto simp: pre_ci_def)

lemma bt_lit: "bt ci (lit L @ k) s c = (if pre_ci ci L s then bt ci k (drop (length L) s) c else None)"
proof (induction L arbitrary: s)
  case Nil
  show ?case by (simp add: lit_def)
next
  case (Cons a L)
  then show ?case by (cases s) (auto simp: lit_def)
qed

lemma occurs_drop: "occurs ci L s \<longleftrightarrow> (\<exists>i \<le> length s. pre_ci ci L (drop i s))"
proof (induction s)
  case Nil
  show ?case by (cases L) auto
next
  case (Cons x xs)
  show ?case
  proof
    assume "occurs ci L (x # xs)"
    then consider "pre_ci ci L (x # xs)" | "occurs ci L xs" by auto
    then show "\<exists>i \<le> length (x # xs). pre_ci ci L (drop i (x # xs))"
    proof cases
      case 1
      then have "pre_ci ci L (drop 0 (x # xs))" by simp
      then show ?thesis by blast
    next
      case 2
      with Cons obtain i where "i \<le> length xs" "pre_ci ci L (drop i xs)" by blast
      then have "Suc i \<le> length (x # xs)" "pre_ci ci L (drop (Suc i) (x # xs))" by simp_all
      then show ?thesis by blast
    qed
  next
    assume "\<exists>i \<le> length (x # xs). pre_ci ci L (drop i (x # xs))"
    then obtain i where i: "i \<le> length (x # xs)" "pre_ci ci L (drop i (x # xs))" by blast
    show "occurs ci L (x # xs)"
    proof (cases i)
      case 0
      with i show ?thesis by simp
    next
      case (Suc j)
      with i have "j \<le> length xs" "pre_ci ci L (drop j xs)" by simp_all
      with Cons show ?thesis by auto
    qed
  qed
qed

lemma no_occurs_dead:
  assumes "\<not> occurs ci L s"
  shows "dead ci (lit L @ k) s []"
  unfolding dead_def
proof (intro allI impI)
  fix i assume "i < length s"
  with assms have "\<not> pre_ci ci L (drop i s)" by (auto simp: occurs_drop)
  then show "bt ci (lit L @ k) (drop i s @ []) Map.empty = None"
    by (simp add: bt_lit)
qed

lemma no_occurs_end: "\<not> occurs ci L s \<Longrightarrow> bt ci (lit L @ k) [] Map.empty = None"
  by (cases L) (auto simp: occurs_drop bt_lit)

lemma scan_dead: "dead ci pat a b \<Longrightarrow> scan ci pat (a @ b) = scan ci pat b"
  by (induction a) auto

lemma scan_Nil_none: "bt ci pat [] Map.empty = None \<Longrightarrow> scan ci pat [] = None"
  by simp

lemma no_occurs_scan: "\<not> occurs ci L s \<Longrightarrow> scan ci (lit L @ k) s = None"
  using scan_dead[OF no_occurs_dead, of ci L s k] no_occurs_end[of ci L s k] by simp

lemma no_occurs_matches: "\<not> occurs ci L s \<Longrightarrow> matches ci (lit L @ k) s = []"
  using matches_dead[OF no_occurs_dead, of ci L s k] no_occurs_end[of ci L s k]
  by (simp add: matches_Nil)

lemma no_occurs_replace: "\<not> occurs ci L s \<Longrightarrow> replace_all ci (lit L @ k) rep s = s"
  using replace_all_dead[OF no_occurs_dead, of ci L s k rep] no_occurs_end[of ci L s k]
  by (simp add: replace_all_Nil)

lemma fence_dead:
  assumes "bt ci (Lit CHR ''`'' # Lit CHR ''`'' # Lit CHR ''`'' # Cap 1 [Rep True 1 js_word] # k)
             (fence lang b @ s) Map.empty = None"
    and "lang_ok lang" "CHR ''`'' \<notin> set b" "after_close s"
  shows "dead ci (Lit CHR ''`'' # Lit CHR ''`'' # Lit CHR ''`'' # Cap 1 [Rep True 1 js_word] # k)
           (fence lang b) s"
proof -
  let ?P = "Lit CHR ''`'' # Lit CHR ''`'' # Lit CHR ''`'' # Cap 1 [Rep True 1 js_word] # k"
  have l: "CHR ''`'' \<notin> set lang"
    using assms(2) word_run[of lang] by (auto simp: lang_ok_def)
  have f: "fence lang b = CHR ''`'' # CHR ''`'' # CHR ''`'' # lang @ [CHR 0x0A] @ b @ ''```''"
    by (simp add: fence_def)
  have 0: "bt ci ?P (CHR ''`'' # CHR ''`'' # CHR ''`'' # lang @ CHR 0x0A # b @ ''```'' @ s) Map.empty = None"
    using assms(1) by (simp add: fence_def)
  have 1: "bt ci ?P (CHR ''`'' # CHR ''`'' # lang @ CHR 0x0A # b @ ''```'' @ s) Map.empty = None"
    and 2: "bt ci ?P (CHR ''`'' # lang @ CHR 0x0A # b @ ''```'' @ s) Map.empty = None"
    using fence_open_inner_dead[OF assms(2)] by simp_all
  have 3: "dead ci ?P lang (CHR 0x0A # b @ ''```'' @ s)" using l by (rule dead_no_tick)
  have 4: "dead ci ?P [CHR 0x0A] (b @ ''```'' @ s)" by (rule dead_no_tick) simp
  have 5: "dead ci ?P b (''```'' @ s)" using assms(3) by (rule dead_no_tick)
  have 6: "dead ci ?P ''```'' s" using assms(4) by (rule fence_close_dead)
  have "dead ci ?P (CHR ''`'' # CHR ''`'' # CHR ''`'' # lang @ [CHR 0x0A] @ b @ ''```'') s"
    unfolding dead_Cons dead_append using 0 1 2 3 4 5 6 by simp
  then show ?thesis by (simp only: f)
qed

lemma after_close_doc:
  assumes "gap_ok g"
  shows "after_close (g @ tail_doc lang bs)"
proof (cases g)
  case Nil
  show ?thesis
  proof (cases bs)
    case Nil
    with \<open>g = []\<close> show ?thesis by (simp add: after_close_def)
  next
    case (Cons p ps)
    obtain b g' where "p = (b, g')" by (cases p)
    with Cons \<open>g = []\<close> show ?thesis by (simp add: after_close_def fence_def)
  qed
next
  case (Cons x xs)
  with assms show ?thesis by (auto simp: after_close_def gap_ok_def)
qed

lemma doc_ok_Cons:
  "doc_ok lang ((b, g) # bs) \<longleftrightarrow>
     lang_ok lang \<and> CHR ''`'' \<notin> set b \<and> gap_ok g \<and> doc_ok lang bs"
  by (auto simp: doc_ok_def)

lemma cursor_doc_dead:
  "doc_ok lang blocks \<Longrightarrow> dead False cursorBlock_rx (tail_doc lang blocks) []"
proof (induction blocks)
  case Nil
  show ?case by simp
next
  case (Cons p bs)
  obtain b g where p: "p = (b, g)" by (cases p)
  from Cons.prems p have ok: "lang_ok lang" "CHR ''`'' \<notin> set b" "gap_ok g" "doc_ok lang bs"
    by (simp_all add: doc_ok_Cons)
  let ?P = "Lit CHR ''`'' # Lit CHR ''`'' # Lit CHR ''`'' # Cap 1 [Rep True 1 js_word] #
     [Lit CHR '':'', Cap 2 [Rep True 1 (not_chr CHR 0x0A)], Lit CHR 0x0A, Cap 3 [Rep False 0 any_chr],
      Lit CHR ''`'', Lit CHR ''`'', Lit CHR ''`'']"
  have P: "cursorBlock_rx = ?P" by (simp add: cursorBlock_rx_def lit_def)
  have ac: "after_close (g @ tail_doc lang bs)" using ok(3) by (rule after_close_doc)
  have 1: "dead False cursorBlock_rx (fence lang b) (g @ tail_doc lang bs)"
    unfolding P
    by (rule fence_dead)
       (use cursor_open_none[OF ok(1), of b "g @ tail_doc lang bs"] ok ac
         in \<open>simp_all add: P\<close>)
  have 2: "dead False cursorBlock_rx g (tail_doc lang bs)"
    unfolding P using ok(3) by (intro dead_no_tick) (simp add: gap_ok_def)
  from 1 2 Cons.IH[OF ok(4)] p show ?case by simp
qed

lemma mdpath_doc_dead:
  "doc_ok lang blocks \<Longrightarrow> \<forall>(b, g) \<in> set blocks. no_path_comment b
   \<Longrightarrow> dead True markdownWithPath_rx (tail_doc lang blocks) []"
proof (induction blocks)
  case Nil
  show ?case by simp
next
  case (Cons p bs)
  obtain b g where p: "p = (b, g)" by (cases p)
  from Cons.prems p have ok: "lang_ok lang" "CHR ''`'' \<notin> set b" "gap_ok g" "doc_ok lang bs"
    by (simp_all add: doc_ok_Cons)
  from Cons.prems p have npc: "no_path_comment b" "\<forall>(b, g) \<in> set bs. no_path_comment b"
    by simp_all
  let ?P = "Lit CHR ''`'' # Lit CHR ''`'' # Lit CHR ''`'' # Cap 1 [Rep True 1 js_word] #
     (Lit CHR 0x0A # Alt [lit ''//'', lit ''#'', lit ''<!--''] # Rep True 0 js_space # lit ''filepath:''
      @ [Rep True 0 js_space, Cap 2 [Rep True 1 (not_chr CHR 0x0A)], Lit CHR 0x0A,
         Cap 3 [Rep False 0 any_chr]] @ lit ''```'')"
  have P: "markdownWithPath_rx = ?P" by (simp add: markdownWithPath_rx_def lit_def)
  have ac: "after_close (g @ tail_doc lang bs)" using ok(3) by (rule after_close_doc)
  have 1: "dead True markdownWithPath_rx (fence lang b) (g @ tail_doc lang bs)"
    unfolding P
    by (rule fence_dead)
       (use mdpath_open_none[OF ok(1) npc(1), of "g @ tail_doc lang bs"] ok ac
         in \<open>simp_all add: P\<close>)
  have 2: "dead True markdownWithPath_rx g (tail_doc lang bs)"
    unfolding P using ok(3) by (intro dead_no_tick) (simp add: gap_ok_def)
  from 1 2 Cons.IH[OF ok(4) npc(2)] p show ?case by simp
qed

lemma md_P: "markdownBlock_rx = Lit CHR ''`'' # Lit CHR ''`'' # Lit CHR ''`'' #
    [Cap 1 [Rep True 1 js_word], Lit CHR 0x0A, Cap 2 [Rep False 0 any_chr],
     Lit CHR ''`'', Lit CHR ''`'', Lit CHR ''`'']"
  by (simp add: markdownBlock_rx_def lit_def)

lemma md_Nil: "bt False markdownBlock_rx [] Map.empty = None"
  by (simp add: md_P)

lemma md_doc_matches:
  "doc_ok lang blocks \<Longrightarrow>
     matches False markdownBlock_rx (tail_doc lang blocks) = map (\<lambda>(b, g). md_match_of lang b) blocks"
proof (induction blocks)
  case Nil
  show ?case by (simp add: matches_Nil md_Nil)
next
  case (Cons p bs)
  obtain b g where p: "p = (b, g)" by (cases p)
  from Cons.prems p have ok: "lang_ok lang" "CHR ''`'' \<notin> set b" "gap_ok g" "doc_ok lang bs"
    by (simp_all add: doc_ok_Cons)
  let ?rest = "g @ tail_doc lang bs"
  have m: "bt False markdownBlock_rx (fence lang b @ ?rest) Map.empty
        = Some ([1 \<mapsto> lang, 2 \<mapsto> b], ?rest)"
    using ok by (intro md_match) (simp_all add: lang_ok_def)
  have "matches False markdownBlock_rx (fence lang b @ ?rest)
        = [1 \<mapsto> lang, 2 \<mapsto> b](0 \<mapsto> take (length (fence lang b @ ?rest) - length ?rest)
              (fence lang b @ ?rest)) # matches False markdownBlock_rx ?rest"
    using m by (rule matches_here) (simp add: fence_def)
  moreover have "[1 \<mapsto> lang, 2 \<mapsto> b](0 \<mapsto> take (length (fence lang b @ ?rest) - length ?rest)
              (fence lang b @ ?rest)) = md_match_of lang b"
    by (simp add: md_match_of_def)
  moreover have "matches False markdownBlock_rx ?rest = matches False markdownBlock_rx (tail_doc lang bs)"
    unfolding md_P using ok(3) by (intro matches_dead dead_no_tick) (simp add: gap_ok_def)
  ultimately show ?case
    using Cons.IH[OF ok(4)] p by simp
qed

lemma md_doc_replace:
  "doc_ok lang blocks \<Longrightarrow>
     replace_all False markdownBlock_rx [] (tail_doc lang blocks) = concat (map snd blocks)"
proof (induction blocks)
  case Nil
  show ?case by (simp add: replace_all_Nil md_Nil)
next
  case (Cons p bs)
  obtain b g where p: "p = (b, g)" by (cases p)
  from Cons.prems p have ok: "lang_ok lang" "CHR ''`'' \<notin> set b" "gap_ok g" "doc_ok lang bs"
    by (simp_all add: doc_ok_Cons)
  let ?rest = "g @ tail_doc lang bs"
  have m: "bt False markdownBlock_rx (fence lang b @ ?rest) Map.empty
        = Some ([1 \<mapsto> lang, 2 \<mapsto> b], ?rest)"
    using ok by (intro md_match) (simp_all add: lang_ok_def)
  have "replace_all False markdownBlock_rx [] (fence lang b @ ?rest)
        = [] @ replace_all False markdownBlock_rx [] ?rest"
    using m by (rule replace_all_here) (simp add: fence_def)
  moreover have "replace_all False markdownBlock_rx [] ?rest
        = g @ replace_all False markdownBlock_rx [] (tail_doc lang bs)"
    unfolding md_P using ok(3) by (intro replace_all_dead dead_no_tick) (simp add: gap_ok_def)
  ultimately show ?case
    using Cons.IH[OF ok(4)] p by simp
qed

lemma inferFilePath_fallback:
  "no_content_pattern code \<Longrightarrow>
     inferFilePath inherited code language = ''src/generated.'' @ extension inherited language ''txt''"
  by (auto simp: no_content_pattern_def inferFilePath_def)

lemma group_md [simp]:
  "group (md_match_of lang b) 1 = lang" "group (md_match_of lang b) 2 = b"
  by (simp_all add: group_def md_match_of_def)

lemma markdown_body_fallback:
  assumes "lang \<notin> set skipped_languages" "no_content_pattern b"
  shows "markdown_body inherited (md_match_of lang b) fs
       = map_set fs (''src/generated.'' @ extension inherited lang ''txt'') (trim b)"
  using assms
  by (simp add: markdown_body_def skipped_languages_def inferFilePath_fallback Let_def
      del: group_md(1)) (simp add: group_def md_match_of_def)

lemma fold_markdown_same_key:
  assumes "lang \<notin> set skipped_languages" "\<forall>(b, g) \<in> set blocks. no_content_pattern b"
    and "blocks \<noteq> []"
    and "fs = [] \<or> (\<exists>v. fs = [(''src/generated.'' @ extension inherited lang ''txt'', v)])"
  shows "fold (markdown_body inherited) (map (\<lambda>(b, g). md_match_of lang b) blocks) fs
       = [(''src/generated.'' @ extension inherited lang ''txt'', trim (fst (last blocks)))]"
  using assms(2-)
proof (induction blocks arbitrary: fs)
  case Nil
  then show ?case by simp
next
  case (Cons p bs)
  obtain b g where p: "p = (b, g)" by (cases p)
  let ?key = "''src/generated.'' @ extension inherited lang ''txt''"
  from Cons.prems(1) p have nb: "no_content_pattern b"
    and rest: "\<forall>(b, g) \<in> set bs. no_content_pattern b" by auto
  have step: "markdown_body inherited (md_match_of lang b) fs = [(?key, trim b)]"
    using Cons.prems(3) by (auto simp: markdown_body_fallback[OF assms(1) nb])
  show ?case
  proof (cases bs)
    case Nil
    with p step show ?thesis by simp
  next
    case (Cons q qs)
    then have ne: "bs \<noteq> []" by simp
    have "fold (markdown_body inherited) (map (\<lambda>(b, g). md_match_of lang b) bs) [(?key, trim b)]
        = [(?key, trim (fst (last bs)))]"
      by (rule Cons.IH[OF rest ne]) simp
    with p step ne show ?thesis by simp
  qed
qed

lemma consuming_patterns:
  "consuming True boltArtifact_rx" "consuming True boltAction_rx" "consuming True lovableFile_rx"
  "consuming False cursorBlock_rx" "consuming True markdownWithPath_rx"
  "consuming False markdownBlock_rx"
  by (simp_all add: boltArtifact_rx_def boltAction_rx_def lovableFile_rx_def cursorBlock_rx_def
      markdownWithPath_rx_def markdownBlock_rx_def lit_def consuming_Lit)

lemma tick_P:
  "cursorBlock_rx = Lit CHR ''`'' # tl cursorBlock_rx"
  "markdownWithPath_rx = Lit CHR ''`'' # tl markdownWithPath_rx"
  "markdownBlock_rx = Lit CHR ''`'' # tl markdownBlock_rx"
  by (simp_all add: cursorBlock_rx_def markdownWithPath_rx_def markdownBlock_rx_def lit_def)

lemma tick_Nil:
  "bt False cursorBlock_rx [] Map.empty = None"
  "bt True markdownWithPath_rx [] Map.empty = None"
  by (simp_all add: cursorBlock_rx_def markdownWithPath_rx_def lit_def)


lemma trim_trimmed: "trimmed (trim s)"
proof -
  let ?t = "dropWhile js_space s"
  let ?w = "dropWhile js_space (rev ?t)"
  show ?thesis
  proof (cases "?w = []")
    case True
    then show ?thesis by (simp add: trimmed_def trim_def)
  next
    case False
    then have hw: "\<not> js_space (hd ?w)" by (rule hd_dropWhile)
    have tne: "?t \<noteq> []"
    proof
      assume "?t = []"
      then have "?w = []" by (simp only: rev.simps dropWhile.simps)
      with False show False by blast
    qed
    then have ht: "\<not> js_space (hd ?t)" by (rule hd_dropWhile)
    have u: "rev ?t = takeWhile js_space (rev ?t) @ ?w" by simp
    have "last (takeWhile js_space (rev ?t) @ ?w) = last ?w" using False by (rule last_appendR)
    with u have "last ?w = last (rev ?t)" by simp
    also have "\<dots> = hd ?t" using tne by (simp add: last_rev)
    finally have lw: "\<not> js_space (last ?w)" using ht by simp
    have "hd (rev ?w) = last ?w" "last (rev ?w) = hd ?w"
      using False by (simp_all add: hd_rev last_rev)
    with hw lw False show ?thesis by (simp add: trimmed_def trim_def)
  qed
qed

lemma trimmed_trim: "trimmed s \<Longrightarrow> trim s = s"
proof (cases s)
  case Nil
  then show ?thesis by (simp add: trim_def)
next
  case (Cons x xs)
  assume "trimmed s"
  with Cons have h: "\<not> js_space x" and l: "\<not> js_space (last s)" by (simp_all add: trimmed_def)
  from h Cons have 1: "dropWhile js_space s = s" by simp
  from Cons obtain a r where ar: "rev s = a # r" by (cases "rev s") auto
  from Cons have "hd (rev s) = last s" by (simp add: hd_rev)
  with ar have "a = last s" by (simp only: list.sel)
  with l have "dropWhile js_space (a # r) = a # r" by simp
  with ar have "dropWhile js_space (rev s) = rev s" by (simp only:)
  with 1 show ?thesis by (simp add: trim_def)
qed

lemma js_space_nl: "js_space CHR 0x0A"
  by (simp add: js_space_def)

lemma collapse_Cons_other:
  "x \<noteq> CHR 0x0A \<Longrightarrow> collapse_runs (x # xs) = x # collapse_runs xs"
  by simp

lemma collapse_Cons_nl:
  "collapse_runs (CHR 0x0A # xs) =
     (if 3 \<le> length (takeWhile (is_chr CHR 0x0A) (CHR 0x0A # xs)) then [CHR 0x0A, CHR 0x0A]
      else takeWhile (is_chr CHR 0x0A) (CHR 0x0A # xs))
     @ collapse_runs (dropWhile (is_chr CHR 0x0A) (CHR 0x0A # xs))"
  by (simp only: collapse_runs.simps if_False simp_thms)

declare collapse_runs.simps(2) [simp del]

lemma collapse_hd:
  "s \<noteq> [] \<Longrightarrow> hd s \<noteq> CHR 0x0A \<Longrightarrow> collapse_runs s \<noteq> [] \<and> hd (collapse_runs s) = hd s"
  by (cases s) (simp_all add: collapse_Cons_other)

lemma dropWhile_last:
  "s \<noteq> [] \<Longrightarrow> \<not> p (last s) \<Longrightarrow> dropWhile p s \<noteq> [] \<and> last (dropWhile p s) = last s"
  by (induction s) (auto split: if_splits)

lemma collapse_last:
  "s \<noteq> [] \<Longrightarrow> last s \<noteq> CHR 0x0A \<Longrightarrow> collapse_runs s \<noteq> [] \<and> last (collapse_runs s) = last s"
proof (induction s rule: collapse_runs.induct)
  case 1
  then show ?case by simp
next
  case (2 x xs)
  show ?case
  proof (cases "x = CHR 0x0A")
    case False
    show ?thesis
    proof (cases xs)
      case Nil
      with False show ?thesis by (simp add: collapse_Cons_other)
    next
      case (Cons y ys)
      with 2(1)[OF False] 2(4) False show ?thesis by (simp add: collapse_Cons_other)
    qed
  next
    case True
    let ?rest = "dropWhile (is_chr CHR 0x0A) (x # xs)"
    let ?head = "if 3 \<le> length (takeWhile (is_chr CHR 0x0A) (x # xs)) then [CHR 0x0A, CHR 0x0A]
      else takeWhile (is_chr CHR 0x0A) (x # xs)"
    have nl: "\<not> is_chr CHR 0x0A (last (x # xs))" unfolding is_chr_def using 2(4) by blast
    have ne: "x # xs \<noteq> []" by simp
    from dropWhile_last[of "x # xs" "is_chr CHR 0x0A", OF ne nl] have r: "?rest \<noteq> []" "last ?rest = last (x # xs)" by blast+
    from r(2) 2(4) have lr: "last ?rest \<noteq> CHR 0x0A" by metis
    have nx: "\<not> x \<noteq> CHR 0x0A" using True by blast
    from 2(2)[OF nx r(1) lr]
    have ih: "collapse_runs ?rest \<noteq> []" "last (collapse_runs ?rest) = last ?rest" by blast+
    have eq: "collapse_runs (x # xs) = ?head @ collapse_runs ?rest"
      using collapse_Cons_nl[of xs] True by metis
    have "last (?head @ collapse_runs ?rest) = last (collapse_runs ?rest)"
      using ih(1) by (rule last_appendR)
    with eq ih r(2) have "last (collapse_runs (x # xs)) = last (x # xs)" by metis
    moreover from eq ih(1) have "collapse_runs (x # xs) \<noteq> []" by (metis append_is_Nil_conv)
    ultimately show ?thesis by blast
  qed
qed

lemma collapse_trimmed: "trimmed s \<Longrightarrow> trimmed (collapse_runs s)"
proof (cases s)
  case Nil
  then show ?thesis by (simp add: trimmed_def)
next
  case (Cons x xs)
  assume "trimmed s"
  with Cons have h: "\<not> js_space (hd s)" and l: "\<not> js_space (last s)" and ne: "s \<noteq> []"
    by (simp_all add: trimmed_def)
  from h l js_space_nl have "hd s \<noteq> CHR 0x0A" "last s \<noteq> CHR 0x0A" by auto
  with collapse_hd[OF ne] collapse_last[OF ne] h l show ?thesis
    by (simp add: trimmed_def)
qed

lemma no_triple_start:
  assumes "c = [] \<or> hd c \<noteq> CHR 0x0A" "\<not> js_includes c [CHR 0x0A, CHR 0x0A, CHR 0x0A]"
  shows "\<not> js_includes (CHR 0x0A # c) [CHR 0x0A, CHR 0x0A, CHR 0x0A]"
    and "\<not> js_includes (CHR 0x0A # CHR 0x0A # c) [CHR 0x0A, CHR 0x0A, CHR 0x0A]"
proof -
  show "\<not> js_includes (CHR 0x0A # c) [CHR 0x0A, CHR 0x0A, CHR 0x0A]"
    using assms by (cases c) auto
  show "\<not> js_includes (CHR 0x0A # CHR 0x0A # c) [CHR 0x0A, CHR 0x0A, CHR 0x0A]"
    using assms by (cases c) auto
qed

lemma takeWhile_replicate:
  "takeWhile (is_chr a) s = replicate (length (takeWhile (is_chr a) s)) a"
  by (induction s) (auto simp: is_chr_def)

lemma collapse_no_triple: "\<not> js_includes (collapse_runs s) [CHR 0x0A, CHR 0x0A, CHR 0x0A]"
proof (induction s rule: collapse_runs.induct)
  case 1
  show ?case by simp
next
  case (2 x xs)
  show ?case
  proof (cases "x = CHR 0x0A")
    case False
    with 2(1) show ?thesis by (simp add: collapse_Cons_other)
  next
    case True
    let ?u = "takeWhile (is_chr CHR 0x0A) (x # xs)"
    let ?rest = "dropWhile (is_chr CHR 0x0A) (x # xs)"
    let ?c = "collapse_runs ?rest"
    have IH: "\<not> js_includes ?c [CHR 0x0A, CHR 0x0A, CHR 0x0A]" using 2(2) True by simp
    have st: "?c = [] \<or> hd ?c \<noteq> CHR 0x0A"
    proof (cases "?rest = []")
      case True
      then show ?thesis by simp
    next
      case False
      then have "\<not> is_chr CHR 0x0A (hd ?rest)" by (rule hd_dropWhile)
      then have "hd ?rest \<noteq> CHR 0x0A" by (simp add: is_chr_def)
      with collapse_hd[OF False] show ?thesis by simp
    qed
    have pos: "0 < length ?u" using True by (simp add: is_chr_def)
    let ?head = "if 3 \<le> length ?u then [CHR 0x0A, CHR 0x0A] else ?u"
    have eq: "collapse_runs (x # xs) = ?head @ ?c"
      using collapse_Cons_nl[of xs] True by metis
    show ?thesis
    proof (cases "3 \<le> length ?u")
      case long: True
      then have "?head = [CHR 0x0A, CHR 0x0A]" by (rule if_P)
      with eq have "collapse_runs (x # xs) = CHR 0x0A # CHR 0x0A # ?c" by simp
      with no_triple_start(2)[OF st IH] show ?thesis by metis
    next
      case short: False
      then have h: "?head = ?u" by (rule if_not_P)
      from short pos consider "length ?u = 1" | "length ?u = 2" by linarith
      then have "?u = [CHR 0x0A] \<or> ?u = [CHR 0x0A, CHR 0x0A]"
      proof cases
        case 1
        with takeWhile_replicate[of "CHR 0x0A" "x # xs"] show ?thesis by simp
      next
        case 2
        with takeWhile_replicate[of "CHR 0x0A" "x # xs"] show ?thesis
          by (simp add: numeral_2_eq_2)
      qed
      then show ?thesis
      proof
        assume "?u = [CHR 0x0A]"
        with h eq have "collapse_runs (x # xs) = CHR 0x0A # ?c" by simp
        with no_triple_start(1)[OF st IH] show ?thesis by metis
      next
        assume "?u = [CHR 0x0A, CHR 0x0A]"
        with h eq have "collapse_runs (x # xs) = CHR 0x0A # CHR 0x0A # ?c" by simp
        with no_triple_start(2)[OF st IH] show ?thesis by metis
      qed
    qed
  qed
qed


text \<open>
  Claim C2 says that a bolt container holding only shell actions is accepted and its
  commands are returned. On such a text \<^verbatim>\<open>parseBoltFormat\<close> does return the container's
  extraction, with the command and the title, but \<^verbatim>\<open>parseArtifact\<close> accepts a result only
  when it has at least one file: it drops the extraction, tries the four other formats
  and returns the empty artifact, without the command.
\<close>

theorem C2_shell_only_container_dropped:
  "parseBoltFormat shell_only P0
     = Some (Some \<lparr>files = [], commands = [''npm i''], metadata = Some \<lparr>title = Some ''t''\<rparr>\<rparr>,
             P0\<lparr>boltArtifact_li := 82, boltAction_li := 0\<rparr>)
   \<and> parseArtifact (\<lambda>n. n) shell_only P0
     = Some (\<lparr>files = [], commands = [], metadata = None\<rparr>,
             P0\<lparr>boltArtifact_li := 82, boltAction_li := 0\<rparr>)"
  by code_simp


subsection \<open>Matching a bolt container and its actions\<close>

lemma chr_eq_no_letter2: "no_letter x \<Longrightarrow> chr_eq ci a x \<longleftrightarrow> a = x"
  using to_upper_cases[of a] by (auto simp: chr_eq_def no_letter_def)

lemma pre_ci_append_cases:
  "pre_ci ci L (a @ x # b) \<Longrightarrow> pre_ci ci L a \<or> (\<exists>l \<in> set L. chr_eq ci l x)"
proof (induction L arbitrary: a)
  case Nil
  show ?case by simp
next
  case (Cons l L)
  show ?case
  proof (cases a)
    case Nil
    with Cons.prems show ?thesis by simp
  next
    case (Cons y a')
    with Cons.prems have "chr_eq ci l y" "pre_ci ci L (a' @ x # b)" by simp_all
    with Cons.IH[of a'] Cons show ?thesis by auto
  qed
qed

lemma pre_ci_border:
  assumes "pre_ci ci (l # L) (a @ x # b)" "a \<noteq> []"
  shows "pre_ci ci (l # L) a \<or> (\<exists>l' \<in> set L. chr_eq ci l' x)"
proof -
  from assms(2) obtain y a' where a: "a = y # a'" by (cases a) auto
  with assms(1) have "chr_eq ci l y" "pre_ci ci L (a' @ x # b)" by simp_all
  with pre_ci_append_cases[of ci L a' x b] a show ?thesis by auto
qed

lemma pre_ci_self: "pre_ci ci L (L @ s)"
  by (induction L) auto

lemma suffix_occurs:
  "\<not> occurs ci L u \<Longrightarrow> suffix t u \<Longrightarrow> \<not> pre_ci ci L t"
proof -
  assume n: "\<not> occurs ci L u" and "suffix t u"
  then obtain w where "u = w @ t" by (auto simp: suffix_def)
  then have "t = drop (length w) u" "length w \<le> length u" by simp_all
  with n show ?thesis by (auto simp: occurs_drop)
qed

lemma bt_lazy_until:
  assumes "\<And>t. t \<noteq> [] \<Longrightarrow> suffix t u \<Longrightarrow> bt ci k (t @ v) c = None"
  shows "bt ci (Rep False 0 any_chr # k) (u @ v) c = bt ci (Rep False 0 any_chr # k) v c"
  using assms
proof (induction u)
  case Nil
  show ?case by simp
next
  case (Cons x u)
  have here: "bt ci k ((x # u) @ v) c = None" by (rule Cons.prems) simp_all
  have "\<And>t. t \<noteq> [] \<Longrightarrow> suffix t u \<Longrightarrow> bt ci k (t @ v) c = None"
    using Cons.prems by (simp add: suffix_ConsI)
  from Cons.IH[OF this] here show ?case by (simp add: any_chr_def)
qed

lemma bt_lit_end:
  "bt ci (lit L) s c = (if pre_ci ci L s then Some (c, drop (length L) s) else None)"
  using bt_lit[of ci L "[]" s c] by simp

lemma bt_CapEnd_lit:
  "bt ci (CapEnd m s0 # lit L) s c
     = (if pre_ci ci L s then Some (c(m \<mapsto> take (length s0 - length s) s0), drop (length L) s)
        else None)"
  using bt_lit[of ci L "[]" s "c(m \<mapsto> take (length s0 - length s) s0)"] by simp

lemma lazy_find:
  assumes "\<not> occurs ci (l # L) u" "\<forall>y \<in> set L. \<not> chr_eq ci y l"
  shows "bt ci (Rep False 0 any_chr # CapEnd m s0 # lit (l # L)) (u @ (l # L) @ v) c
       = Some (c(m \<mapsto> take (length s0 - length ((l # L) @ v)) s0), v)"
proof -
  let ?k = "CapEnd m s0 # lit (l # L)"
  have skip: "bt ci ?k (t @ (l # L) @ v) c = None" if "t \<noteq> []" "suffix t u" for t
  proof -
    have "\<not> pre_ci ci (l # L) (t @ l # L @ v)"
    proof
      assume "pre_ci ci (l # L) (t @ l # L @ v)"
      from pre_ci_border[OF this that(1)] assms(2) have "pre_ci ci (l # L) t" by blast
      with suffix_occurs[OF assms(1) that(2)] show False by blast
    qed
    then show ?thesis by (simp add: bt_lit_end)
  qed
  have "bt ci (Rep False 0 any_chr # ?k) (u @ (l # L) @ v) c
      = bt ci (Rep False 0 any_chr # ?k) ((l # L) @ v) c"
    using skip by (rule bt_lazy_until)
  also have "\<dots> = Some (c(m \<mapsto> take (length s0 - length ((l # L) @ v)) s0), v)"
    using pre_ci_self[of ci L v] by (simp add: bt_lit_end)
  finally show ?thesis .
qed

lemma close_action_find:
  assumes "\<not> occurs True ''</boltAction>'' c"
  shows "bt True (Rep False 0 any_chr # CapEnd 3 (c @ ''</boltAction>'' @ rest) # lit ''</boltAction>'')
           (c @ ''</boltAction>'' @ rest) cc
       = Some (cc(3 \<mapsto> c), rest)"
proof -
  have "\<forall>y \<in> set ''/boltAction>''. \<not> chr_eq True y CHR ''<''"
    by (simp add: chr_eq_no_letter2)
  from lazy_find[OF assms this, of 3 "c @ ''</boltAction>'' @ rest" rest cc]
  show ?thesis by simp
qed

lemma file_action_match:
  assumes p: "p \<noteq> []" "CHR 0x22 \<notin> set p" and c: "\<not> occurs True ''</boltAction>'' c"
  shows "bt True boltAction_rx (render_action (FileAction p c) @ rest) Map.empty
       = Some ([1 \<mapsto> ''file'', 2 \<mapsto> p, 3 \<mapsto> c], rest)"
proof -
  let ?v = "CHR 0x22 # CHR ''>'' # c @ ''</boltAction>'' @ rest"
  let ?K3 = "[Rep True 0 (not_chr CHR ''>''), Lit CHR ''>'', Cap 3 [Rep False 0 any_chr]]
             @ lit ''</boltAction>''"
  let ?K2 = "CapEnd 2 (p @ ?v) # Lit CHR 0x22 # ?K3"
  have k2: "bt True ?K2 ?v cc = Some (cc(2 \<mapsto> p, 3 \<mapsto> c), rest)" for cc
    using close_action_find[OF c, of rest] by (simp add: not_chr_def)
  have pa: "list_all (not_chr CHR 0x22) p" using p(2) by (auto simp: list_all_iff not_chr_def)
  have "bt True (Rep True 1 (not_chr CHR 0x22) # ?K2) (p @ ?v) cc = bt True ?K2 ?v cc" for cc
    using pa p(1) k2 by (intro bt_rep_greedy_commit) (auto simp: not_chr_def Suc_le_eq)
  with k2 have path: "bt True (Rep True 1 (not_chr CHR 0x22) # ?K2) (p @ ?v) cc
      = Some (cc(2 \<mapsto> p, 3 \<mapsto> c), rest)" for cc by simp
  show ?thesis
    using path
    by (simp add: boltAction_rx_def dq_def lit_def js_space_def js_word_def)
qed

lemma shell_action_match:
  assumes c: "\<not> occurs True ''</boltAction>'' c"
  shows "bt True boltAction_rx (render_action (ShellAction c) @ rest) Map.empty
       = Some ([1 \<mapsto> ''shell'', 3 \<mapsto> c], rest)"
  using close_action_find[OF c, of rest]
  by (simp add: boltAction_rx_def dq_def lit_def js_space_def js_word_def not_chr_def)

lemma close_artifact_find:
  assumes "\<not> occurs True ''</boltArtifact>'' inner"
  shows "bt True (Rep False 0 any_chr # CapEnd 2 (inner @ ''</boltArtifact>'' @ rest) # lit ''</boltArtifact>'')
           (inner @ ''</boltArtifact>'' @ rest) cc
       = Some (cc(2 \<mapsto> inner), rest)"
proof -
  have "\<forall>y \<in> set ''/boltArtifact>''. \<not> chr_eq True y CHR ''<''"
    by (simp add: chr_eq_no_letter2)
  from lazy_find[OF assms this, of 2 "inner @ ''</boltArtifact>'' @ rest" rest cc]
  show ?thesis by simp
qed

lemma suffix_snoc_cases:
  assumes "suffix s (t @ [x])" "s \<noteq> []"
  shows "\<exists>s'. s = s' @ [x] \<and> suffix s' t"
proof -
  from assms(1) obtain w where w: "t @ [x] = w @ s" by (auto simp: suffix_def)
  from assms(2) obtain s' y where s: "s = s' @ [y]" by (metis rev_exhaust)
  with w have "t @ [x] = (w @ s') @ [y]" by simp
  then have "t = w @ s'" "x = y" by simp_all
  with s show ?thesis by (auto simp: suffix_def)
qed

lemma title_rest:
  assumes inner: "\<not> occurs True ''</boltArtifact>'' inner"
  shows "bt True (CapEnd 1 (t @ CHR 0x22 # CHR ''>'' # inner @ ''</boltArtifact>'' @ rest) # Lit CHR 0x22 #
           [Rep True 0 (not_chr CHR ''>''), Lit CHR ''>'', Cap 2 [Rep False 0 any_chr]]
             @ lit ''</boltArtifact>'')
          (CHR 0x22 # CHR ''>'' # inner @ ''</boltArtifact>'' @ rest) cc
        = Some (cc(1 \<mapsto> t, 2 \<mapsto> inner), rest)"
  using close_artifact_find[OF inner, of rest] by (simp add: not_chr_def)

lemma title_ok_D:
  assumes "title_ok t"
  shows "list_all (not_chr CHR 0x22) t" "list_all (not_chr CHR ''>'') (t @ [CHR 0x22])"
    "\<not> occurs True ''title='' t"
  using assms by (auto simp add: list_all_iff not_chr_def title_ok_def)

lemma title_commit:
  assumes t: "title_ok t" and inner: "\<not> occurs True ''</boltArtifact>'' inner"
  shows "bt True (Rep True 0 (not_chr CHR 0x22) #
           CapEnd 1 (t @ CHR 0x22 # CHR ''>'' # inner @ ''</boltArtifact>'' @ rest) # Lit CHR 0x22 #
           [Rep True 0 (not_chr CHR ''>''), Lit CHR ''>'', Cap 2 [Rep False 0 any_chr]]
             @ lit ''</boltArtifact>'')
          (t @ CHR 0x22 # CHR ''>'' # inner @ ''</boltArtifact>'' @ rest) cc
        = Some (cc(1 \<mapsto> t, 2 \<mapsto> inner), rest)"
proof -
  note r = title_rest[OF inner, of t rest cc]
  have v: "CHR 0x22 # CHR ''>'' # inner @ ''</boltArtifact>'' @ rest = [] \<or>
       \<not> not_chr CHR 0x22 (hd (CHR 0x22 # CHR ''>'' # inner @ ''</boltArtifact>'' @ rest))"
    by (simp add: not_chr_def)
  have n: "0 \<le> length t" by simp
  have ne: "bt True (CapEnd 1 (t @ CHR 0x22 # CHR ''>'' # inner @ ''</boltArtifact>'' @ rest) # Lit CHR 0x22 #
           [Rep True 0 (not_chr CHR ''>''), Lit CHR ''>'', Cap 2 [Rep False 0 any_chr]]
             @ lit ''</boltArtifact>'')
          (CHR 0x22 # CHR ''>'' # inner @ ''</boltArtifact>'' @ rest) cc \<noteq> None"
    unfolding r by blast
  show ?thesis
    unfolding bt_rep_greedy_commit[OF title_ok_D(1)[OF t] v n ne] by (rule r)
qed

lemma pre_ci_length: "pre_ci ci L s \<Longrightarrow> length L \<le> length s"
  by (simp add: pre_ci_def)

lemma pre_ci_drop_last:
  assumes "pre_ci ci L (a @ x # b)" "\<forall>l \<in> set L. \<not> chr_eq ci l x"
  shows "pre_ci ci L a"
  using pre_ci_append_cases[OF assms(1)] assms(2) by blast

lemma title_attr_no_pre:
  assumes t: "title_ok t" and s: "suffix s (''itle='' @ CHR 0x22 # t @ [CHR 0x22])"
  shows "\<not> pre_ci True ''title='' (s @ CHR ''>'' # w)"
proof
  assume a: "pre_ci True ''title='' (s @ CHR ''>'' # w)"
  have q: "\<forall>l \<in> set ''title=''. \<not> chr_eq True l (CHR 0x22)"
    by (simp add: chr_eq_no_letter2)
  have g: "\<forall>l \<in> set ''title=''. \<not> chr_eq True l (CHR ''>'')"
    by (simp add: chr_eq_no_letter2)
  have ps: "pre_ci True ''title='' s" by (rule pre_ci_drop_last[OF a g])
  have "s \<noteq> []" using pre_ci_length[OF ps] by auto
  moreover have "suffix s ((''itle='' @ CHR 0x22 # t) @ [CHR 0x22])" using s by simp
  ultimately obtain s1 where s1: "s = s1 @ [CHR 0x22]" "suffix s1 (''itle='' @ CHR 0x22 # t)"
    using suffix_snoc_cases by metis
  have "pre_ci True ''title='' (s1 @ CHR 0x22 # [])" using ps unfolding s1(1) .
  then have p1: "pre_ci True ''title='' s1" by (rule pre_ci_drop_last[OF _ q])
  have "suffix s1 (''itle='' @ [CHR 0x22] @ t)" using s1(2) by simp
  then have "suffix s1 t \<or> (\<exists>s0. s1 = s0 @ t \<and> suffix s0 (''itle='' @ [CHR 0x22]))"
    unfolding append_assoc[symmetric] by (simp only: suffix_append)
  then show False
  proof
    assume "suffix s1 t"
    from suffix_occurs[OF title_ok_D(3)[OF t] this] p1 show False by (rule notE)
  next
    assume "\<exists>s0. s1 = s0 @ t \<and> suffix s0 (''itle='' @ [CHR 0x22])"
    then obtain s0 where s0: "s1 = s0 @ t" "suffix s0 (''itle='' @ [CHR 0x22])" by (elim exE conjE)
    show False
    proof (cases "s0 = []")
      case True
      then have "suffix s1 t" using s0(1) by simp
      from suffix_occurs[OF title_ok_D(3)[OF t] this] p1 show False by (rule notE)
    next
      case False
      from suffix_snoc_cases[OF s0(2) False]
      obtain s2 where s2: "s0 = s2 @ [CHR 0x22]" "suffix s2 ''itle=''" by (elim exE conjE)
      have "pre_ci True ''title='' (s2 @ CHR 0x22 # t)" using p1 unfolding s0(1) s2(1) by simp
      then have "pre_ci True ''title='' s2" by (rule pre_ci_drop_last[OF _ q])
      from pre_ci_length[OF this] suffix_length_le[OF s2(2)] show False by simp
    qed
  qed
qed

lemma bt_lit_self: "bt ci (lit L @ k) (L @ s) c = bt ci k s c"
  by (simp add: bt_lit pre_ci_self)

lemma title_scan:
  assumes t: "title_ok t"
    and ok: "bt True (lit ''title='' @ k) (''title='' @ CHR 0x22 # t @ CHR 0x22 # CHR ''>'' # w) cc = Some r"
  shows "bt True (Rep True 0 (not_chr CHR ''>'') # lit ''title='' @ k)
           (CHR '' '' # ''title='' @ CHR 0x22 # t @ CHR 0x22 # CHR ''>'' # w) cc = Some r"
proof -
  have none: "bt True (Rep True 0 (not_chr CHR ''>'') # lit ''title='' @ k)
      ((''itle='' @ CHR 0x22 # t @ [CHR 0x22]) @ CHR ''>'' # w) cc = None"
  proof (rule bt_rep_greedy_none)
    show "list_all (not_chr CHR ''>'') (''itle='' @ CHR 0x22 # t @ [CHR 0x22])"
      using title_ok_D(2)[OF t] by (simp add: not_chr_def)
    show "CHR ''>'' # w = [] \<or> \<not> not_chr CHR ''>'' (hd (CHR ''>'' # w))" by (simp add: not_chr_def)
    fix s assume s: "suffix s (''itle='' @ CHR 0x22 # t @ [CHR 0x22])"
    show "bt True (lit ''title='' @ k) (s @ CHR ''>'' # w) cc = None"
      unfolding bt_lit if_not_P[OF title_attr_no_pre[OF t s]] ..
  qed
  have a: "bt True (Rep True 0 (not_chr CHR ''>'') # lit ''title='' @ k)
      (CHR ''t'' # (''itle='' @ CHR 0x22 # t @ [CHR 0x22]) @ CHR ''>'' # w) cc = Some r"
    unfolding bt.simps(9) none using ok by (simp add: not_chr_def)
  have b: "bt True (Rep True 0 (not_chr CHR ''>'') # lit ''title='' @ k)
      (CHR '' '' # CHR ''t'' # (''itle='' @ CHR 0x22 # t @ [CHR 0x22]) @ CHR ''>'' # w) cc = Some r"
    unfolding bt.simps(9)[of _ _ _ "CHR '' ''"] a by (simp add: not_chr_def)
  then show ?thesis by simp
qed

lemma artifact_match:
  assumes t: "title_ok t" and inner: "\<not> occurs True ''</boltArtifact>'' inner"
  shows "bt True boltArtifact_rx (artifact_block t inner @ rest) Map.empty
       = Some ([1 \<mapsto> t, 2 \<mapsto> inner], rest)"
proof -
  let ?w = "inner @ ''</boltArtifact>'' @ rest"
  let ?K = "[Lit CHR 0x22, Cap 1 [Rep True 0 (not_chr CHR 0x22)], Lit CHR 0x22,
        Rep True 0 (not_chr CHR ''>''), Lit CHR ''>'', Cap 2 [Rep False 0 any_chr]]
     @ lit ''</boltArtifact>''"
  have e1: "artifact_block t inner @ rest
      = ''<boltArtifact'' @ (CHR '' '' # ''title='' @ CHR 0x22 # t @ CHR 0x22 # CHR ''>'' # ?w)"
    by (simp add: artifact_block_def dq_def)
  have e2: "boltArtifact_rx = lit ''<boltArtifact'' @ (Rep True 0 (not_chr CHR ''>'') # lit ''title='' @ ?K)"
    by (simp add: boltArtifact_rx_def)
  have ok: "bt True (lit ''title='' @ ?K) (''title='' @ CHR 0x22 # t @ CHR 0x22 # CHR ''>'' # ?w) Map.empty
      = Some ([1 \<mapsto> t, 2 \<mapsto> inner], rest)"
    unfolding bt_lit_self using title_commit[OF t inner, of rest Map.empty] by simp
  show ?thesis unfolding e1 e2 bt_lit_self by (rule title_scan[OF t ok])
qed

lemma scan_here: "bt ci pat s Map.empty = Some (c, r) \<Longrightarrow> scan ci pat s = Some (s, c, r)"
  by (cases s) auto

lemma occurs_border_dead:
  assumes "\<not> occurs ci (l # L) a" "\<forall>l' \<in> set L. \<not> chr_eq ci l' x"
  shows "dead ci (lit (l # L) @ k) a (x # b)"
  unfolding dead_def
proof (intro allI impI)
  fix i assume i: "i < length a"
  have "\<not> pre_ci ci (l # L) (drop i a @ x # b)"
  proof
    assume p: "pre_ci ci (l # L) (drop i a @ x # b)"
    from i have "drop i a \<noteq> []" by simp
    from pre_ci_border[OF p this] assms(2) have "pre_ci ci (l # L) (drop i a)" by blast
    with suffix_occurs[OF assms(1) suffix_drop] show False by blast
  qed
  then show "bt ci (lit (l # L) @ k) (drop i a @ x # b) Map.empty = None"
    by (simp add: bt_lit)
qed

lemma render_action_Cons: "\<exists>r. render_action a = CHR ''<'' # r"
  by (cases a) simp_all

lemma actions_text_Cons: "acts \<noteq> [] \<Longrightarrow> \<exists>r. actions_text acts = CHR ''<'' # r"
proof (cases acts)
  case Nil
  assume "acts \<noteq> []"
  with Nil show ?thesis by simp
next
  case (Cons q qs)
  obtain a g where q: "q = (a, g)" by (cases q)
  from render_action_Cons[of a] obtain r where "render_action a = CHR ''<'' # r" ..
  with Cons q show ?thesis by simp
qed

lemma boltAction_P: "\<exists>k. boltAction_rx = lit ''<boltAction'' @ k"
  by (simp add: boltAction_rx_def)

lemma gap_dead:
  assumes "\<not> occurs True ''<boltAction'' g"
  shows "dead True boltAction_rx g (actions_text acts)"
proof -
  from boltAction_P obtain k where k: "boltAction_rx = lit ''<boltAction'' @ k" ..
  show ?thesis
  proof (cases "acts = []")
    case True
    with no_occurs_dead[OF assms, of k] show ?thesis unfolding k by simp
  next
    case False
    from actions_text_Cons[OF this] obtain r where r: "actions_text acts = CHR ''<'' # r" ..
    have "\<forall>l' \<in> set ''boltAction''. \<not> chr_eq True l' CHR ''<''"
      by (simp add: chr_eq_no_letter2)
    from occurs_border_dead[OF assms this, of k r] show ?thesis unfolding k r .
  qed
qed

lemma boltAction_Nil: "bt True boltAction_rx [] Map.empty = None"
  by (simp add: boltAction_rx_def lit_def)

lemma action_match_body:
  assumes "action_ok a"
  shows "\<exists>m. bt True boltAction_rx (render_action a @ rest) Map.empty = Some (m, rest)
     \<and> (\<forall>w acc. action_body (m(0 \<mapsto> w)) acc =
          (case a of
             FileAction p c \<Rightarrow> (map_set (fst acc) p (trim c), snd acc)
           | ShellAction c \<Rightarrow> (fst acc, snd acc @ [trim c])))"
proof (cases a)
  case (FileAction p c)
  with assms have "p \<noteq> []" "CHR 0x22 \<notin> set p" "\<not> occurs True ''</boltAction>'' c" by simp_all
  from file_action_match[OF this, of rest] FileAction \<open>p \<noteq> []\<close> show ?thesis
    by (simp add: action_body_def group_def)
next
  case (ShellAction c)
  with assms have "\<not> occurs True ''</boltAction>'' c" by simp
  from shell_action_match[OF this, of rest] ShellAction show ?thesis
    by (simp add: action_body_def group_def)
qed

lemma render_action_ne: "render_action a \<noteq> []"
  using render_action_Cons[of a] by auto

lemma fold_actions:
  "actions_ok acts \<Longrightarrow>
     fold action_body (matches True boltAction_rx (actions_text acts)) acc
       = (fold (\<lambda>(p, c) fs. map_set fs p (trim c)) (declared_files (map fst acts)) (fst acc),
          snd acc @ map trim (declared_commands (map fst acts)))"
proof (induction acts arbitrary: acc)
  case Nil
  show ?case by (simp add: matches_Nil boltAction_Nil)
next
  case (Cons q qs)
  obtain a g where q: "q = (a, g)" by (cases q)
  from Cons.prems q have ok: "action_ok a" "\<not> occurs True ''<boltAction'' g" "actions_ok qs"
    by simp_all
  let ?rest = "g @ actions_text qs"
  from action_match_body[OF ok(1), of ?rest] obtain m where
    m: "bt True boltAction_rx (render_action a @ ?rest) Map.empty = Some (m, ?rest)"
    and body: "\<And>w acc. action_body (m(0 \<mapsto> w)) acc =
          (case a of
             FileAction p c \<Rightarrow> (map_set (fst acc) p (trim c), snd acc)
           | ShellAction c \<Rightarrow> (fst acc, snd acc @ [trim c]))"
    by blast
  let ?m0 = "m(0 \<mapsto> take (length (render_action a @ ?rest) - length ?rest) (render_action a @ ?rest))"
  have "matches True boltAction_rx (render_action a @ ?rest)
        = ?m0 # matches True boltAction_rx ?rest"
    using m by (rule matches_here) (simp add: render_action_ne)
  moreover have "matches True boltAction_rx ?rest = matches True boltAction_rx (actions_text qs)"
    by (rule matches_dead[OF gap_dead[OF ok(2)]])
  ultimately have ms: "matches True boltAction_rx (actions_text (q # qs))
        = ?m0 # matches True boltAction_rx (actions_text qs)"
    using q by simp
  show ?case
  proof (cases a)
    case (FileAction p c)
    with body have "action_body ?m0 acc = (map_set (fst acc) p (trim c), snd acc)" by simp
    with ms Cons.IH[OF ok(3), of "(map_set (fst acc) p (trim c), snd acc)"] q FileAction
    show ?thesis by simp
  next
    case (ShellAction c)
    with body have "action_body ?m0 acc = (fst acc, snd acc @ [trim c])" by simp
    with ms Cons.IH[OF ok(3), of "(fst acc, snd acc @ [trim c])"] q ShellAction
    show ?thesis by simp
  qed
qed

lemma artifact_block_Cons:
  "\<exists>r. artifact_block t inner @ post = CHR ''<'' # r"
  by (simp add: artifact_block_def)

lemma boltArtifact_P: "\<exists>k. boltArtifact_rx = lit ''<boltArtifact'' @ k"
  by (simp add: boltArtifact_rx_def)

lemma exec_artifact:
  assumes pre: "\<not> occurs True ''<boltArtifact'' pre" and t: "title_ok t"
    and inner: "\<not> occurs True ''</boltArtifact>'' inner"
  shows "\<exists>m. exec True boltArtifact_rx (pre @ artifact_block t inner @ post) 0
           = (Some m, length (pre @ artifact_block t inner))
         \<and> m 1 = Some t \<and> m 2 = Some inner"
proof -
  from boltArtifact_P obtain k where k: "boltArtifact_rx = lit ''<boltArtifact'' @ k" ..
  from artifact_block_Cons obtain r where r: "artifact_block t inner @ post = CHR ''<'' # r" ..
  have "\<forall>l' \<in> set ''boltArtifact''. \<not> chr_eq True l' CHR ''<''"
    by (simp add: chr_eq_no_letter2)
  from occurs_border_dead[OF pre this, of k r]
  have d: "dead True boltArtifact_rx pre (artifact_block t inner @ post)" unfolding k r .
  have "scan True boltArtifact_rx (pre @ artifact_block t inner @ post)
      = Some (artifact_block t inner @ post, [1 \<mapsto> t, 2 \<mapsto> inner], post)"
    unfolding scan_dead[OF d] by (rule scan_here[OF artifact_match[OF t inner]])
  then show ?thesis by (simp add: exec_def)
qed

lemma parseBoltFormat_block:
  assumes pre: "\<not> occurs True ''<boltArtifact'' pre" and t: "title_ok t"
    and inner: "\<not> occurs True ''</boltArtifact>'' (g0 @ actions_text acts)"
    and g0: "\<not> occurs True ''<boltAction'' g0" and acts: "actions_ok acts"
    and fs: "fs = fold (\<lambda>(p, c) fs. map_set fs p (trim c)) (declared_files (map fst acts)) []"
    and ne: "fs \<noteq> []"
  shows "parseBoltFormat (pre @ artifact_block t (g0 @ actions_text acts) @ post) P
       = Some (Some \<lparr>files = fs, commands = map trim (declared_commands (map fst acts)),
                      metadata = Some \<lparr>title = Some t\<rparr>\<rparr>,
               P\<lparr>boltArtifact_li := length (pre @ artifact_block t (g0 @ actions_text acts)),
                  boltAction_li := 0\<rparr>)"
proof -
  let ?inner = "g0 @ actions_text acts"
  from exec_artifact[OF pre t inner, of post] obtain m where
    m: "exec True boltArtifact_rx (pre @ artifact_block t ?inner @ post) 0
           = (Some m, length (pre @ artifact_block t ?inner))"
       "m 1 = Some t" "m 2 = Some ?inner" by blast
  have "matches True boltAction_rx ?inner = matches True boltAction_rx (actions_text acts)"
    by (rule matches_dead[OF gap_dead[OF g0]])
  then have "exec_loop True boltAction_rx ?inner action_body 0 ([], [])
      = Some ((fs, map trim (declared_commands (map fst acts))), 0)"
    using fold_actions[OF acts, of "([], [])"] fs
    by (simp add: exec_loop_matches[OF consuming_patterns(2)])
  with m ne show ?thesis
    by (simp add: parseBoltFormat_def group_def)
qed

lemma map_set_fresh: "k \<notin> fst ` set m \<Longrightarrow> map_set m k v = m @ [(k, v)]"
  by (induction m) auto

lemma fold_map_set_distinct:
  "distinct (map fst acc @ map fst es) \<Longrightarrow>
     fold (\<lambda>(p, c) fs. map_set fs p (trim c)) es acc = acc @ map (\<lambda>(p, c). (p, trim c)) es"
proof (induction es arbitrary: acc)
  case Nil
  show ?case by simp
next
  case (Cons e es)
  obtain p c where e: "e = (p, c)" by (cases e)
  from Cons.prems e have fresh: "p \<notin> fst ` set acc" by auto
  from Cons.prems e have "distinct (map fst (acc @ [(p, trim c)]) @ map fst es)" by auto
  from Cons.IH[OF this] e show ?case by (simp add: map_set_fresh[OF fresh])
qed

lemma parseArtifact_block:
  assumes pre: "\<not> occurs True ''<boltArtifact'' pre" and t: "title_ok t"
    and inner: "\<not> occurs True ''</boltArtifact>'' (g0 @ actions_text acts)"
    and g0: "\<not> occurs True ''<boltAction'' g0" and acts: "actions_ok acts"
    and paths: "distinct (map fst (declared_files (map fst acts)))"
    and ne: "declared_files (map fst acts) \<noteq> []"
  shows "parseArtifact inherited (pre @ artifact_block t (g0 @ actions_text acts) @ post) P
       = Some (\<lparr>files = map (\<lambda>(p, c). (p, trim c)) (declared_files (map fst acts)),
                commands = map trim (declared_commands (map fst acts)),
                metadata = Some \<lparr>title = Some t\<rparr>\<rparr>,
               P\<lparr>boltArtifact_li := length (pre @ artifact_block t (g0 @ actions_text acts)),
                  boltAction_li := 0\<rparr>)"
proof -
  let ?fs = "map (\<lambda>(p, c). (p, trim c)) (declared_files (map fst acts))"
  have fs: "?fs = fold (\<lambda>(p, c) fs. map_set fs p (trim c)) (declared_files (map fst acts)) []"
    using fold_map_set_distinct[of "[]" "declared_files (map fst acts)"] paths by simp
  from ne have ne': "?fs \<noteq> []" by simp
  show ?thesis
    unfolding parseArtifact_def parseBoltFormat_block[OF pre t inner g0 acts fs ne']
    using ne' by (simp add: or_else_def)
qed

text \<open>
  Claim C3. Take a text that holds a bolt container, after a text that opens no
  container. The container is well formed: its title, the declared paths and the contents
  are as described above, and the text between its actions opens no action. Its actions,
  in whatever order they are written, are two file actions with different declared paths
  and one shell action. Then \<^verbatim>\<open>parseArtifact\<close> returns, whatever follows the container,
  exactly two file entries, keyed by the declared paths in the order written, each with
  its content trimmed, and exactly one command, the trimmed content of the shell action.
\<close>

theorem C3_two_files_one_command:
  assumes pre: "\<not> occurs True ''<boltArtifact'' pre" and ttl: "title_ok t"
    and inner: "\<not> occurs True ''</boltArtifact>'' (g0 @ actions_text acts)"
    and g0: "\<not> occurs True ''<boltAction'' g0" and acts: "actions_ok acts"
    and two: "declared_files (map fst acts) = [(p1, c1), (p2, c2)]" "p1 \<noteq> p2"
    and one: "declared_commands (map fst acts) = [cmd]"
  shows "parseArtifact inherited (pre @ artifact_block t (g0 @ actions_text acts) @ post) P
       = Some (\<lparr>files = [(p1, trim c1), (p2, trim c2)], commands = [trim cmd],
                metadata = Some \<lparr>title = Some t\<rparr>\<rparr>,
               P\<lparr>boltArtifact_li := length (pre @ artifact_block t (g0 @ actions_text acts)),
                  boltAction_li := 0\<rparr>)"
proof -
  from two have d: "distinct (map fst (declared_files (map fst acts)))"
    and ne: "declared_files (map fst acts) \<noteq> []" by simp_all
  from parseArtifact_block[OF pre ttl inner g0 acts d ne, of inherited post P] two(1) one
  show ?thesis by simp
qed

theorem C3_two_files_one_command_witness:
  "\<not> occurs True ''<boltArtifact'' ''Hi ''
   \<and> title_ok ''App''
   \<and> \<not> occurs True ''</boltArtifact>''
        ([] @ actions_text [(FileAction ''a.ts'' '' x '', [CHR 0x0A]), (ShellAction ''npm i'', []),
                            (FileAction ''b.ts'' ''y'', [])])
   \<and> \<not> occurs True ''<boltAction'' []
   \<and> actions_ok [(FileAction ''a.ts'' '' x '', [CHR 0x0A]), (ShellAction ''npm i'', []),
                  (FileAction ''b.ts'' ''y'', [])]
   \<and> declared_files (map fst [(FileAction ''a.ts'' '' x '', [CHR 0x0A]), (ShellAction ''npm i'', []),
                               (FileAction ''b.ts'' ''y'', [])])
       = [(''a.ts'', '' x ''), (''b.ts'', ''y'')]
   \<and> ''a.ts'' \<noteq> ''b.ts''
   \<and> declared_commands (map fst [(FileAction ''a.ts'' '' x '', [CHR 0x0A]),
                                  (ShellAction ''npm i'', []), (FileAction ''b.ts'' ''y'', [])])
       = [''npm i'']
   \<and> parseArtifact (\<lambda>n. n)
        (''Hi '' @ artifact_block ''App''
           ([] @ actions_text [(FileAction ''a.ts'' '' x '', [CHR 0x0A]), (ShellAction ''npm i'', []),
                               (FileAction ''b.ts'' ''y'', [])]) @ '' bye'') P0
       = Some (\<lparr>files = [(''a.ts'', ''x''), (''b.ts'', ''y'')], commands = [''npm i''],
                metadata = Some \<lparr>title = Some ''App''\<rparr>\<rparr>,
               P0\<lparr>boltArtifact_li := length (''Hi '' @ artifact_block ''App''
                      ([] @ actions_text [(FileAction ''a.ts'' '' x '', [CHR 0x0A]),
                                          (ShellAction ''npm i'', []), (FileAction ''b.ts'' ''y'', [])])),
                   boltAction_li := 0\<rparr>)"
proof -
  let ?acts = "[(FileAction ''a.ts'' '' x '', [CHR 0x0A]), (ShellAction ''npm i'', []),
                (FileAction ''b.ts'' ''y'', [])]"
  have h1: "\<not> occurs True ''<boltArtifact'' ''Hi ''" by code_simp
  have h2: "title_ok ''App''" by code_simp
  have h3: "\<not> occurs True ''</boltArtifact>'' ([] @ actions_text ?acts)" by code_simp
  have h4: "\<not> occurs True ''<boltAction'' []" by code_simp
  have h5: "actions_ok ?acts" by code_simp
  have h6: "declared_files (map fst ?acts) = [(''a.ts'', '' x ''), (''b.ts'', ''y'')]" by simp
  have h7: "''a.ts'' \<noteq> ''b.ts''" by simp
  have h8: "declared_commands (map fst ?acts) = [''npm i'']" by simp
  have t: "trim '' x '' = ''x''" "trim ''y'' = ''y''" "trim ''npm i'' = ''npm i''" by code_simp+
  note c = C3_two_files_one_command[OF h1 h2 h3 h4 h5 h6 h7 h8, of "\<lambda>n. n" "'' bye''" P0,
      unfolded t]
  from h1 h2 h3 h4 h5 h6 h7 h8 c show ?thesis by blast
qed

lemma strip_blocks_doc:
  assumes doc: "doc_ok lang blocks" "CHR ''`'' \<notin> set g0"
    and tags: "\<not> occurs True ''<boltArtifact'' (g0 @ tail_doc lang blocks)"
              "\<not> occurs True ''<file'' (g0 @ tail_doc lang blocks)"
  shows "strip_blocks (g0 @ tail_doc lang blocks) = g0 @ concat (map snd blocks)"
proof -
  let ?T = "g0 @ tail_doc lang blocks"
  have 1: "replace_all True boltArtifact_rx [] ?T = ?T"
    using no_occurs_replace[OF tags(1)] by (simp add: boltArtifact_rx_def)
  have 2: "replace_all True lovableFile_rx [] ?T = ?T"
    using no_occurs_replace[OF tags(2)] by (simp add: lovableFile_rx_def)
  have "dead False cursorBlock_rx ?T []"
    using cursor_doc_dead[OF doc(1)] dead_no_tick[OF doc(2), of False "tl cursorBlock_rx"]
    by (simp add: tick_P(1)[symmetric])
  then have 3: "replace_all False cursorBlock_rx [] ?T = ?T"
    using replace_all_dead[of False cursorBlock_rx ?T "[]" "[]"]
    by (simp add: replace_all_Nil tick_Nil)
  have "dead False markdownBlock_rx g0 (tail_doc lang blocks)"
    using dead_no_tick[OF doc(2), of False "tl markdownBlock_rx"] by (simp add: tick_P(3)[symmetric])
  then have 4: "replace_all False markdownBlock_rx [] ?T = g0 @ concat (map snd blocks)"
    using replace_all_dead md_doc_replace[OF doc(1)] by simp
  show ?thesis by (simp add: strip_blocks_def 1 2 3 4)
qed

lemma extractMessage_spec:
  "fst (extractMessage text P) = collapse_runs (trim (strip_blocks text))"
  by (simp add: extractMessage_def strip_blocks_def Let_def replace_newlines_collapse)

lemma example_message:
  "collapse_runs (trim (''Here you go:'' @ [CHR 0x0A, CHR 0x0A] @ [CHR 0x0A, CHR 0x0A] @ ''Done!''))
     = ''Here you go:'' @ [CHR 0x0A, CHR 0x0A] @ ''Done!''"
  by (simp add: trim_def js_space_def collapse_Cons_other collapse_Cons_nl is_chr_def)

lemma close_file_find:
  assumes "\<not> occurs True ''</file>'' c"
  shows "bt True (Rep False 0 any_chr # CapEnd 2 (c @ ''</file>'' @ rest) # lit ''</file>'')
           (c @ ''</file>'' @ rest) cc
       = Some (cc(2 \<mapsto> c), rest)"
proof -
  have "\<forall>y \<in> set ''/file>''. \<not> chr_eq True y CHR ''<''"
    by (simp add: chr_eq_no_letter2)
  from lazy_find[OF assms this, of 2 "c @ ''</file>'' @ rest" rest cc]
  show ?thesis by simp
qed

lemma tagged_file_match:
  assumes p: "p \<noteq> []" "CHR 0x22 \<notin> set p" and c: "\<not> occurs True ''</file>'' c"
  shows "bt True lovableFile_rx (render_block (TaggedFile p c) @ rest) Map.empty
       = Some ([1 \<mapsto> p, 2 \<mapsto> c], rest)"
proof -
  let ?v = "CHR 0x22 # CHR ''>'' # c @ ''</file>'' @ rest"
  let ?K3 = "[Rep True 0 (not_chr CHR ''>''), Lit CHR ''>'', Cap 2 [Rep False 0 any_chr]]
             @ lit ''</file>''"
  let ?K2 = "CapEnd 1 (p @ ?v) # Lit CHR 0x22 # ?K3"
  have k2: "bt True ?K2 ?v cc = Some (cc(1 \<mapsto> p, 2 \<mapsto> c), rest)" for cc
    using close_file_find[OF c, of rest] by (simp add: not_chr_def)
  have pa: "list_all (not_chr CHR 0x22) p" using p(2) by (auto simp: list_all_iff not_chr_def)
  have "bt True (Rep True 1 (not_chr CHR 0x22) # ?K2) (p @ ?v) cc = bt True ?K2 ?v cc" for cc
    using pa p(1) k2 by (intro bt_rep_greedy_commit) (auto simp: not_chr_def Suc_le_eq)
  with k2 have path: "bt True (Rep True 1 (not_chr CHR 0x22) # ?K2) (p @ ?v) cc
      = Some (cc(1 \<mapsto> p, 2 \<mapsto> c), rest)" for cc by simp
  show ?thesis
    using path
    by (simp add: lovableFile_rx_def dq_def lit_def js_space_def)
qed


lemma path_fence_match:
  assumes l: "lang_ok l" and p: "p \<noteq> []" "CHR 0x0A \<notin> set p" and b: "CHR ''`'' \<notin> set b"
  shows "bt False cursorBlock_rx (render_block (PathFence l p b) @ rest) Map.empty
       = Some ([1 \<mapsto> l, 2 \<mapsto> p, 3 \<mapsto> b], rest)"
proof -
  let ?s2 = "CHR 0x0A # b @ ''```'' @ rest"
  let ?s1 = "CHR '':'' # p @ ?s2"
  let ?k3 = "[Cap 3 [Rep False 0 any_chr], Lit CHR ''`'', Lit CHR ''`'', Lit CHR ''`'']"
  let ?k2 = "CapEnd 2 (p @ ?s2) # Lit CHR 0x0A # ?k3"
  let ?k1 = "CapEnd 1 (l @ ?s1) # Lit CHR '':'' # Cap 2 [Rep True 1 (not_chr CHR 0x0A)] # Lit CHR 0x0A # ?k3"
  have lazy: "bt False [Rep False 0 any_chr, CapEnd 3 (b @ ''```'' @ rest), Lit CHR ''`'', Lit CHR ''`'', Lit CHR ''`'']
                (b @ ''```'' @ rest) c
           = Some (c(3 \<mapsto> b), rest)" for c
    using b by (subst bt_lazy_skip) (auto simp: chr_eq_def)
  have k2: "bt False ?k2 ?s2 c = Some (c(2 \<mapsto> p, 3 \<mapsto> b), rest)" for c
    using lazy by simp
  have pa: "list_all (not_chr CHR 0x0A) p" using p(2) by (auto simp: list_all_iff not_chr_def)
  have "bt False (Rep True 1 (not_chr CHR 0x0A) # ?k2) (p @ ?s2) c = bt False ?k2 ?s2 c" for c
    using pa p(1) k2 by (intro bt_rep_greedy_commit) (auto simp: not_chr_def Suc_le_eq)
  with k2 have path: "bt False (Rep True 1 (not_chr CHR 0x0A) # ?k2) (p @ ?s2) c
      = Some (c(2 \<mapsto> p, 3 \<mapsto> b), rest)" for c by simp
  have k1: "bt False ?k1 ?s1 Map.empty = Some ([1 \<mapsto> l, 2 \<mapsto> p, 3 \<mapsto> b], rest)"
    using path by simp
  have "bt False (Rep True 1 js_word # ?k1) (l @ ?s1) Map.empty = bt False ?k1 ?s1 Map.empty"
    using l k1 by (intro bt_rep_greedy_commit) (auto simp: js_word_not Suc_le_eq lang_ok_def)
  with k1 show ?thesis
    by (simp add: cursorBlock_rx_def lit_def chr_eq_def)
qed


lemma pre_ci_extend: "pre_ci ci L a \<Longrightarrow> pre_ci ci L (a @ b)"
proof (induction L arbitrary: a)
  case Nil
  show ?case by simp
next
  case (Cons l L)
  then show ?case by (cases a) auto
qed

lemma dead_guard:
  assumes no: "\<not> occurs ci L (a @ [x])" and x: "\<forall>y \<in> set L. \<not> chr_eq ci y x"
  shows "dead ci (lit L @ k) (a @ [x]) s"
  unfolding dead_def
proof (intro allI impI)
  fix i assume "i < length (a @ [x])"
  then have i: "i \<le> length a" by simp
  have "\<not> pre_ci ci L (drop i (a @ [x]) @ s)"
  proof
    assume "pre_ci ci L (drop i (a @ [x]) @ s)"
    with i have "pre_ci ci L (drop i a @ x # s)" by simp
    from pre_ci_append_cases[OF this] x have "pre_ci ci L (drop i a)" by blast
    then have "pre_ci ci L (drop i a @ [x])" by (rule pre_ci_extend)
    with i have "pre_ci ci L (drop i (a @ [x]))" by simp
    moreover from i have "i \<le> length (a @ [x])" by simp
    ultimately have "occurs ci L (a @ [x])" unfolding occurs_drop by blast
    with no show False ..
  qed
  then show "bt ci (lit L @ k) (drop i (a @ [x]) @ s) Map.empty = None"
    by (simp add: bt_lit)
qed

lemma render_block_last:
  "rank b \<noteq> 1 \<Longrightarrow> \<exists>a x. render_block b = a @ [x] \<and> (x = CHR ''`'' \<or> x = CHR ''>'')"
proof (cases b)
  case (Container t inner)
  assume "rank b \<noteq> 1"
  with Container show ?thesis by simp
next
  case (TaggedFile p c)
  have "render_block b = (''<file path='' @ dq @ p @ dq @ ''>'' @ c @ ''</file'') @ [CHR ''>'']"
    using TaggedFile by simp
  then show ?thesis by blast
next
  case (PathFence l p body)
  have "render_block b = (''```'' @ l @ '':'' @ p @ [CHR 0x0A] @ body @ ''``'') @ [CHR ''`'']"
    using PathFence by simp
  then show ?thesis by blast
next
  case (PlainFence l body)
  have "render_block b = (''```'' @ l @ [CHR 0x0A] @ body @ ''``'') @ [CHR ''`'']"
    using PlainFence by (simp add: fence_def)
  then show ?thesis by blast
qed

lemma lovableFile_P: "\<exists>k. lovableFile_rx = lit ''<file'' @ k"
  by (simp add: lovableFile_rx_def)

lemma container_dead:
  assumes "rank b \<noteq> 1" "\<not> occurs True ''<boltArtifact'' (render_block b)"
  shows "dead True boltArtifact_rx (render_block b) s"
proof -
  from boltArtifact_P obtain k where k: "boltArtifact_rx = lit ''<boltArtifact'' @ k" ..
  from render_block_last[OF assms(1)] obtain a x where
    r: "render_block b = a @ [x]" and x: "x = CHR ''`'' \<or> x = CHR ''>''" by blast
  from x have "\<forall>y \<in> set ''<boltArtifact''. \<not> chr_eq True y x"
    by (auto simp: chr_eq_no_letter2)
  from dead_guard[OF assms(2)[unfolded r] this, of k s] show ?thesis unfolding k r .
qed

lemma tagged_file_dead:
  assumes "rank b \<noteq> 1" "\<not> occurs True ''<file'' (render_block b)"
  shows "dead True lovableFile_rx (render_block b) s"
proof -
  from lovableFile_P obtain k where k: "lovableFile_rx = lit ''<file'' @ k" ..
  from render_block_last[OF assms(1)] obtain a x where
    r: "render_block b = a @ [x]" and x: "x = CHR ''`'' \<or> x = CHR ''>''" by blast
  from x have "\<forall>y \<in> set ''<file''. \<not> chr_eq True y x"
    by (auto simp: chr_eq_no_letter2)
  from dead_guard[OF assms(2)[unfolded r] this, of k s] show ?thesis unfolding k r .
qed


lemma lt_P:
  "boltArtifact_rx = Lit CHR ''<'' # tl boltArtifact_rx"
  "lovableFile_rx = Lit CHR ''<'' # tl lovableFile_rx"
  by (simp_all add: boltArtifact_rx_def lovableFile_rx_def lit_def)

lemma dead_no_lt: "CHR ''<'' \<notin> set a \<Longrightarrow> dead ci (Lit CHR ''<'' # k) a b"
  by (rule dead_first) (auto simp: chr_eq_no_letter)

lemma plain_dead:
  assumes "CHR ''<'' \<notin> set g" "CHR ''`'' \<notin> set g"
  shows "dead True boltArtifact_rx g s" "dead True lovableFile_rx g s"
    "dead False cursorBlock_rx g s" "dead False markdownBlock_rx g s"
proof -
  show "dead True boltArtifact_rx g s"
    using dead_no_lt[OF assms(1), of True "tl boltArtifact_rx" s] by (simp add: lt_P(1)[symmetric])
  show "dead True lovableFile_rx g s"
    using dead_no_lt[OF assms(1), of True "tl lovableFile_rx" s] by (simp add: lt_P(2)[symmetric])
  show "dead False cursorBlock_rx g s"
    using dead_no_tick[OF assms(2), of False "tl cursorBlock_rx" s] by (simp add: tick_P(1)[symmetric])
  show "dead False markdownBlock_rx g s"
    using dead_no_tick[OF assms(2), of False "tl markdownBlock_rx" s] by (simp add: tick_P(3)[symmetric])
qed

lemma prose_plain: "prose_ok g \<Longrightarrow> CHR ''<'' \<notin> set g \<and> CHR ''`'' \<notin> set g"
  by (simp add: prose_ok_def gap_ok_def)

lemma after_close_prose:
  assumes "prose_ok g" "after_close s"
  shows "after_close (g @ s)"
proof (cases g)
  case Nil
  with assms(2) show ?thesis by simp
next
  case (Cons x xs)
  with assms(1) show ?thesis by (auto simp: after_close_def prose_ok_def gap_ok_def)
qed

lemma render_block_first:
  "(\<exists>r. render_block b = CHR ''<'' # r) \<or> (\<exists>t. render_block b = ''```'' @ t)"
  by (cases b) (simp_all add: artifact_block_def fence_def)

lemma render_block_ne: "render_block b \<noteq> []"
  using render_block_first[of b] by auto

lemma after_close_block: "after_close (render_block b @ s)"
proof -
  from render_block_first[of b] consider r where "render_block b = CHR ''<'' # r"
    | t where "render_block b = ''```'' @ t" by blast
  then show ?thesis
  proof cases
    case 1
    then show ?thesis by (simp add: after_close_def js_word_def)
  next
    case 2
    then have "render_block b @ s = ''```'' @ (t @ s)" by simp
    then show ?thesis unfolding after_close_def by blast
  qed
qed

lemma after_close_pass: "blocks_ok items \<Longrightarrow> after_close (after_pass n items)"
proof (induction items)
  case Nil
  show ?case by (simp add: after_close_def)
next
  case (Cons q rest)
  obtain b g where q: "q = (b, g)" by (cases q)
  from Cons.prems q have ok: "prose_ok g" "blocks_ok rest" by simp_all
  have "after_close (g @ after_pass n rest)"
    using ok(1) Cons.IH[OF ok(2)] by (rule after_close_prose)
  with q after_close_block[of b "g @ after_pass n rest"] show ?case by simp
qed

lemma pass_generic:
  assumes nil: "bt ci pat [] Map.empty = None"
    and gap: "\<And>g s. prose_ok g \<Longrightarrow> dead ci pat g s"
    and hit: "\<And>b s. block_ok b \<Longrightarrow> rank b = Suc n \<Longrightarrow> after_close s
                \<Longrightarrow> \<exists>m. bt ci pat (render_block b @ s) Map.empty = Some (m, s)"
    and miss: "\<And>b s. block_ok b \<Longrightarrow> Suc n < rank b \<Longrightarrow> after_close s
                \<Longrightarrow> dead ci pat (render_block b) s"
  shows "blocks_ok items \<Longrightarrow> replace_all ci pat [] (after_pass n items) = after_pass (Suc n) items"
proof (induction items)
  case Nil
  show ?case by (simp add: replace_all_Nil[OF nil])
next
  case (Cons q rest)
  obtain b g where q: "q = (b, g)" by (cases q)
  from Cons.prems q have ok: "block_ok b" "prose_ok g" "blocks_ok rest" by simp_all
  let ?R = "after_pass n rest"
  have ac: "after_close (g @ ?R)"
    using ok(2) after_close_pass[OF ok(3)] by (rule after_close_prose)
  have tail: "replace_all ci pat [] (g @ ?R) = g @ after_pass (Suc n) rest"
    using replace_all_dead[OF gap[OF ok(2)], of "[]" ?R] Cons.IH[OF ok(3)] by simp
  consider (gone) "rank b \<le> n" | (hit) "rank b = Suc n" | (miss) "Suc n < rank b"
    by linarith
  then show ?case
  proof cases
    case gone
    with q tail show ?thesis by simp
  next
    case hit
    from assms(3)[OF ok(1) hit ac] obtain m where
      m: "bt ci pat (render_block b @ g @ ?R) Map.empty = Some (m, g @ ?R)" ..
    have "replace_all ci pat [] (render_block b @ g @ ?R) = [] @ replace_all ci pat [] (g @ ?R)"
      using m by (rule replace_all_here) (simp add: render_block_ne)
    with q hit tail show ?thesis by simp
  next
    case miss
    have "replace_all ci pat [] (render_block b @ g @ ?R)
        = render_block b @ replace_all ci pat [] (g @ ?R)"
      using assms(4)[OF ok(1) miss ac] by (rule replace_all_dead)
    with q miss tail show ?thesis by simp
  qed
qed


lemma lt_Nil:
  "bt True boltArtifact_rx [] Map.empty = None" "bt True lovableFile_rx [] Map.empty = None"
  by (simp_all add: boltArtifact_rx_def lovableFile_rx_def lit_def)

lemma pass1: "blocks_ok items \<Longrightarrow>
    replace_all True boltArtifact_rx [] (after_pass 0 items) = after_pass 1 items"
  unfolding One_nat_def
proof (rule pass_generic)
  show "bt True boltArtifact_rx [] Map.empty = None" by (rule lt_Nil(1))
  show "dead True boltArtifact_rx g s" if "prose_ok g" for g s
    using prose_plain[OF that] by (simp add: plain_dead(1))
  show "\<exists>m. bt True boltArtifact_rx (render_block b @ s) Map.empty = Some (m, s)"
    if "block_ok b" "rank b = Suc 0" for b s
    using that artifact_match by (cases b) auto
  show "dead True boltArtifact_rx (render_block b) s" if "block_ok b" "Suc 0 < rank b" for b s
  proof (rule container_dead)
    show "rank b \<noteq> 1" using that(2) by simp
    show "\<not> occurs True ''<boltArtifact'' (render_block b)" using that by (cases b) simp_all
  qed
qed

lemma pass2: "blocks_ok items \<Longrightarrow>
    replace_all True lovableFile_rx [] (after_pass 1 items) = after_pass 2 items"
  unfolding One_nat_def numeral_2_eq_2
proof (rule pass_generic)
  show "bt True lovableFile_rx [] Map.empty = None" by (rule lt_Nil(2))
  show "dead True lovableFile_rx g s" if "prose_ok g" for g s
    using prose_plain[OF that] by (simp add: plain_dead(2))
  show "\<exists>m. bt True lovableFile_rx (render_block b @ s) Map.empty = Some (m, s)"
    if "block_ok b" "rank b = Suc (Suc 0)" for b s
    using that tagged_file_match by (cases b) auto
  show "dead True lovableFile_rx (render_block b) s" if "block_ok b" "Suc (Suc 0) < rank b" for b s
  proof (rule tagged_file_dead)
    show "rank b \<noteq> 1" using that(2) by simp
    show "\<not> occurs True ''<file'' (render_block b)" using that by (cases b) simp_all
  qed
qed

lemma cursor_P:
  "cursorBlock_rx = Lit CHR ''`'' # Lit CHR ''`'' # Lit CHR ''`'' # Cap 1 [Rep True 1 js_word] #
     [Lit CHR '':'', Cap 2 [Rep True 1 (not_chr CHR 0x0A)], Lit CHR 0x0A, Cap 3 [Rep False 0 any_chr],
      Lit CHR ''`'', Lit CHR ''`'', Lit CHR ''`'']"
  by (simp add: cursorBlock_rx_def lit_def)

lemma plain_fence_cursor_dead:
  assumes "lang_ok l" "CHR ''`'' \<notin> set body" "after_close s"
  shows "dead False cursorBlock_rx (fence l body) s"
  unfolding cursor_P
  by (rule fence_dead) (use cursor_open_none[OF assms(1), of body s] assms in \<open>simp_all add: cursor_P\<close>)

lemma pass3: "blocks_ok items \<Longrightarrow>
    replace_all False cursorBlock_rx [] (after_pass 2 items) = after_pass 3 items"
  unfolding numeral_2_eq_2 numeral_3_eq_3
proof (rule pass_generic)
  show "bt False cursorBlock_rx [] Map.empty = None" by (rule tick_Nil(1))
  show "dead False cursorBlock_rx g s" if "prose_ok g" for g s
    using prose_plain[OF that] by (simp add: plain_dead(3))
  show "\<exists>m. bt False cursorBlock_rx (render_block b @ s) Map.empty = Some (m, s)"
    if "block_ok b" "rank b = Suc (Suc (Suc 0))" for b s
    using that path_fence_match by (cases b) auto
  show "dead False cursorBlock_rx (render_block b) s"
    if "block_ok b" "Suc (Suc (Suc 0)) < rank b" "after_close s" for b s
    using that plain_fence_cursor_dead by (cases b) auto
qed

lemma pass4: "blocks_ok items \<Longrightarrow>
    replace_all False markdownBlock_rx [] (after_pass 3 items) = after_pass 4 items"
proof -
  have 4: "(4::nat) = Suc (Suc (Suc (Suc 0)))" by simp
  show "blocks_ok items \<Longrightarrow> ?thesis"
    unfolding numeral_3_eq_3 4
  proof (rule pass_generic)
    show "bt False markdownBlock_rx [] Map.empty = None" by (rule md_Nil)
    show "dead False markdownBlock_rx g s" if "prose_ok g" for g s
      using prose_plain[OF that] by (simp add: plain_dead(4))
    show "\<exists>m. bt False markdownBlock_rx (render_block b @ s) Map.empty = Some (m, s)"
      if "block_ok b" "rank b = Suc (Suc (Suc (Suc 0)))" for b s
      using that md_match by (cases b) (auto simp: lang_ok_def)
    show "dead False markdownBlock_rx (render_block b) s"
      if "Suc (Suc (Suc (Suc 0))) < rank b" for b s
      using that by (cases b) simp_all
  qed
qed

lemma after_pass_0: "after_pass 0 items = blocks_text items"
proof (induction items)
  case Nil
  show ?case by simp
next
  case (Cons q rest)
  obtain b g where "q = (b, g)" by (cases q)
  with Cons show ?case by (cases b) simp_all
qed

lemma after_pass_4: "after_pass 4 items = concat (map snd items)"
proof (induction items)
  case Nil
  show ?case by simp
next
  case (Cons q rest)
  obtain b g where "q = (b, g)" by (cases q)
  with Cons show ?case by (cases b) simp_all
qed

lemma strip_blocks_mixed:
  assumes ok: "blocks_ok items" and g0: "CHR ''<'' \<notin> set g0" "CHR ''`'' \<notin> set g0"
  shows "strip_blocks (g0 @ blocks_text items) = g0 @ concat (map snd items)"
proof -
  have 1: "replace_all True boltArtifact_rx [] (g0 @ after_pass 0 items) = g0 @ after_pass 1 items"
    using replace_all_dead[OF plain_dead(1)[OF g0]] pass1[OF ok] by simp
  have 2: "replace_all True lovableFile_rx [] (g0 @ after_pass 1 items) = g0 @ after_pass 2 items"
    using replace_all_dead[OF plain_dead(2)[OF g0]] pass2[OF ok] by simp
  have 3: "replace_all False cursorBlock_rx [] (g0 @ after_pass 2 items) = g0 @ after_pass 3 items"
    using replace_all_dead[OF plain_dead(3)[OF g0]] pass3[OF ok] by simp
  have 4: "replace_all False markdownBlock_rx [] (g0 @ after_pass 3 items) = g0 @ after_pass 4 items"
    using replace_all_dead[OF plain_dead(4)[OF g0]] pass4[OF ok] by simp
  show ?thesis
    unfolding strip_blocks_def after_pass_0[symmetric] 1 2 3 4 after_pass_4 ..
qed

lemma sample_ok: "blocks_ok sample_blocks"
  by code_simp

lemma sample_message:
  "collapse_runs (trim (''Intro:'' @ [CHR 0x0A] @ concat (map snd sample_blocks)))
     = ''Intro:'' @ [CHR 0x0A, CHR 0x0A] @ ''Done!''"
  by code_simp




end
